theory Spec2Isabelle
  imports Main "HOL-Library.Word" "HOL-Library.Sublist"
begin

unbundle bit_operations_syntax

section \<open>Errors\<close>

text \<open>
  The exceptions the modelled code throws, as values. \<open>Integrity_Failure\<close> and
  \<open>Provider_Not_Found\<close> carry what the C++ constructors are given;
  \<open>Assertion_Failure\<close> is a failed \<open>BOTAN_ASSERT\<close> with its message.
  \<open>Undefined_Behaviour\<close> marks the places where C++ gives the program no meaning
  (a read outside a vector, a shift by at least the width of the type).
\<close>

datatype error =
    Integrity_Failure string
  | Assertion_Failure string
  | Provider_Not_Found string string
  | Undefined_Behaviour

type_synonym bytes = "8 word list"

section \<open>Key constraints (\<open>src/lib/x509/key_constraint.cpp\<close>)\<close>

text \<open>
  The bit values of the enumeration \<open>Key_Constraints::Bits\<close> are declared in
  \<open>pkix_enums.h\<close>, which is not among the sources; they are taken as a parameter.
\<close>

record Key_Constraints_Bits =
  DIGITAL_SIGNATURE :: "32 word"
  NON_REPUDIATION :: "32 word"
  KEY_ENCIPHERMENT :: "32 word"
  DATA_ENCIPHERMENT :: "32 word"
  KEY_AGREEMENT :: "32 word"
  KEY_CERT_SIGN :: "32 word"
  CRL_SIGN :: "32 word"
  ENCIPHER_ONLY :: "32 word"
  DECIPHER_ONLY :: "32 word"

text \<open>A public key, as far as this code looks at it: the virtual \<open>algo_name()\<close>.\<close>

record Public_Key =
  algo_name :: string

definition can_agree :: "string \<Rightarrow> bool" where
  "can_agree name = (name = ''DH'' \<or> name = ''ECDH'' \<or> prefix ''Kyber-'' name)"

definition can_encrypt :: "string \<Rightarrow> bool" where
  "can_encrypt name = (name = ''RSA'' \<or> name = ''ElGamal'' \<or> prefix ''Kyber-'' name)"

definition can_sign :: "string \<Rightarrow> bool" where
  "can_sign name =
     (name = ''RSA'' \<or> name = ''DSA'' \<or>
      name = ''ECDSA'' \<or> name = ''ECGDSA'' \<or> name = ''ECKCDSA'' \<or> name = ''Ed25519'' \<or>
      name = ''GOST-34.10'' \<or> name = ''GOST-34.10-2012-256'' \<or> name = ''GOST-34.10-2012-512'' \<or>
      prefix ''Dilithium-'' name)"

text \<open>The local variable \<open>permitted\<close> of \<open>compatible_with\<close> after its three updates.\<close>

definition permitted :: "Key_Constraints_Bits \<Rightarrow> string \<Rightarrow> 32 word" where
  "permitted K name =
     (let p0 = 0;
          p1 = (if can_agree name
                then p0 OR (KEY_AGREEMENT K OR ENCIPHER_ONLY K OR DECIPHER_ONLY K) else p0);
          p2 = (if can_encrypt name
                then p1 OR (KEY_ENCIPHERMENT K OR DATA_ENCIPHERMENT K) else p1);
          p3 = (if can_sign name
                then p2 OR (DIGITAL_SIGNATURE K OR NON_REPUDIATION K OR KEY_CERT_SIGN K OR CRL_SIGN K)
                else p2)
      in p3)"

definition compatible_with :: "Key_Constraints_Bits \<Rightarrow> 32 word \<Rightarrow> 'a Public_Key_scheme \<Rightarrow> bool" where
  "compatible_with K m_value pub_key =
     (let name = algo_name pub_key
      in if (m_value AND permitted K name) \<noteq> m_value then False else True)"

text \<open>The values the enumeration has in Botan, used where a concrete table is needed.\<close>

definition botan_bits :: Key_Constraints_Bits where
  "botan_bits =
     \<lparr> DIGITAL_SIGNATURE = 0x8000, NON_REPUDIATION = 0x4000, KEY_ENCIPHERMENT = 0x2000,
       DATA_ENCIPHERMENT = 0x1000, KEY_AGREEMENT = 0x800, KEY_CERT_SIGN = 0x400,
       CRL_SIGN = 0x200, ENCIPHER_ONLY = 0x100, DECIPHER_ONLY = 0x80 \<rparr>"

section \<open>XMSS private key (\<open>src/lib/pubkey/xmss/xmss_privatekey.cpp\<close>): data\<close>

text \<open>
  The parameter sets (\<open>XMSS_Parameters\<close>, \<open>XMSS_WOTS_Parameters\<close>) are classes of
  headers outside the sources; of them the code reads \<open>tree_height()\<close> and the two
  \<open>element_size()\<close>. A key is the record of the members its classes hold: the public
  key's parameters, root and public seed, and the private key's PRF seed, the private seed
  of its one-time-signature key and the unused leaf index.
\<close>

record XMSS_Parameters =
  tree_height :: nat
  element_size :: nat

record XMSS_WOTS_Parameters =
  wots_element_size :: nat

record XMSS_PublicKey = Public_Key +
  m_xmss_params :: XMSS_Parameters
  m_wots_params :: XMSS_WOTS_Parameters
  m_root :: bytes
  m_public_seed :: bytes

record XMSS_PrivateKey =
  public_key :: XMSS_PublicKey
  m_prf :: bytes
  private_seed :: bytes
  unused_leaf_index :: nat

text \<open>
  What the code asks of the platform it is compiled for: \<open>sizeof(size_t)\<close>, whether
  \<open>BOTAN_TARGET_OS_HAS_THREADS\<close> is defined, and the value of
  \<open>ceil(log2(std::thread::hardware_concurrency()))\<close> converted to \<open>size_t\<close>.
  A \<open>size_t\<close> has \<open>8 * sizeof(size_t)\<close> bits and its arithmetic wraps around.
\<close>

record platform =
  sizeof_size_t :: nat
  has_threads :: bool
  hardware_concurrency_log2 :: nat

definition size_t_max :: "platform \<Rightarrow> nat" where
  "size_t_max plat = 2 ^ (8 * sizeof_size_t plat)"

text \<open>
  The public key class is outside the sources. Its constructor from raw bytes, its
  \<open>size()\<close> and its \<open>raw_public_key()\<close> are parameters of the model.
\<close>

record XMSS_PublicKey_Ops =
  XMSS_PublicKey_from_raw :: "bytes \<Rightarrow> error + XMSS_PublicKey"
  XMSS_PublicKey_size :: "XMSS_PublicKey \<Rightarrow> nat"
  raw_public_key :: "XMSS_PublicKey \<Rightarrow> bytes"

section \<open>Construction from raw bytes and serialization\<close>

text \<open>
  Modelled from the spec: \<open>XMSS_PrivateKey::size()\<close> is declared in
  \<open>xmss_privatekey.h\<close>, outside the sources; the spec gives the total length as
  \<open>public_key_size + 8 + 2*element_size\<close>.
\<close>

definition XMSS_PrivateKey_size :: "XMSS_PublicKey_Ops \<Rightarrow> XMSS_PublicKey \<Rightarrow> nat" where
  "XMSS_PrivateKey_size pko pub = XMSS_PublicKey_size pko pub + 8 + 2 * element_size (m_xmss_params pub)"

text \<open>
  Modelled from the spec: \<open>set_unused_leaf_index\<close> is declared in
  \<open>xmss_privatekey.h\<close>, outside the sources; the spec has the key hold the leaf index
  as a locally cached value, which this stores.
\<close>

definition set_unused_leaf_index :: "nat \<Rightarrow> XMSS_PrivateKey \<Rightarrow> XMSS_PrivateKey" where
  "set_unused_leaf_index idx key = key\<lparr>unused_leaf_index := idx\<rparr>"

text \<open>
  The loop \<open>unused_leaf = ((unused_leaf << 8) | *i)\<close> over the bytes of the index
  field, on \<open>uint64_t\<close>.
\<close>

definition decode_unused_leaf :: "bytes \<Rightarrow> 64 word" where
  "decode_unused_leaf field = foldl (\<lambda>unused_leaf i. push_bit 8 unused_leaf OR ucast i) 0 field"

text \<open>The eight bytes from \<open>XMSS_PublicKey::size()\<close> on.\<close>

definition leaf_index_field :: "XMSS_PublicKey_Ops \<Rightarrow> XMSS_PublicKey \<Rightarrow> bytes \<Rightarrow> bytes" where
  "leaf_index_field pko pub raw_key = take 8 (drop (XMSS_PublicKey_size pko pub) raw_key)"

definition size_t_assert_msg :: string where
  \<open>size_t_assert_msg = ''System type "size_t" not big enough to support leaf index.''\<close>

text \<open>
  The constructor \<open>XMSS_PrivateKey(raw_key)\<close>. The base class is constructed first and
  its exception ends the construction. The assertion compares \<open>sizeof(size_t)\<close> with
  \<open>ceil(tree_height / 8)\<close>, computed in \<open>float\<close> and exact for every tree height
  below \<open>2^24\<close>; the model computes it on \<open>nat\<close>. The shift \<open>1ull << (h - 1)\<close> has
  no meaning for \<open>h = 0\<close> (the subtraction wraps) and for \<open>h > 64\<close>. After the
  length check the index field and the PRF seed lie inside the buffer; the private seed
  is read over \<open>m_wots_params.element_size()\<close> bytes, which end inside the buffer when
  that size is at most the XMSS element size.
\<close>

definition XMSS_PrivateKey_from_raw ::
  "platform \<Rightarrow> XMSS_PublicKey_Ops \<Rightarrow> bytes \<Rightarrow> error + XMSS_PrivateKey" where
  "XMSS_PrivateKey_from_raw plat pko raw_key =
     (case XMSS_PublicKey_from_raw pko raw_key of
        Inl e \<Rightarrow> Inl e
      | Inr pub \<Rightarrow>
          let h = tree_height (m_xmss_params pub);
              n = element_size (m_xmss_params pub);
              wn = wots_element_size (m_wots_params pub);
              pub_size = XMSS_PublicKey_size pko pub
          in
          if \<not> (sizeof_size_t plat \<ge> (h + 7) div 8) then Inl (Assertion_Failure size_t_assert_msg)
          else if length raw_key \<noteq> XMSS_PrivateKey_size pko pub
          then Inl (Integrity_Failure ''Invalid XMSS private key size detected.'')
          else
            let unused_leaf = decode_unused_leaf (leaf_index_field pko pub raw_key) in
            if h = 0 \<or> 64 < h then Inl Undefined_Behaviour
            else if unused_leaf \<ge> push_bit (h - 1) 1
            then Inl (Integrity_Failure ''XMSS private key leaf index out of bounds.'')
            else if n < wn then Inl Undefined_Behaviour
            else
              Inr (set_unused_leaf_index (unat unused_leaf mod size_t_max plat)
                    \<lparr> public_key = pub,
                      m_prf = take n (drop (pub_size + 8) raw_key),
                      private_seed = take wn (drop (pub_size + 8 + n) raw_key),
                      unused_leaf_index = 0 \<rparr>))"

text \<open>
  \<open>raw_private_key\<close>: the public key bytes, the unused leaf index converted to
  \<open>uint64_t\<close> and written from the most significant byte down, the PRF seed and the
  private seed.
\<close>

definition raw_private_key :: "XMSS_PublicKey_Ops \<Rightarrow> XMSS_PrivateKey \<Rightarrow> bytes" where
  "raw_private_key pko this =
     raw_public_key pko (public_key this) @
     map (\<lambda>i. ucast (drop_bit (8 * i) (word_of_nat (unused_leaf_index this) :: 64 word)))
       [7, 6, 5, 4, 3, 2, 1, 0] @
     m_prf this @
     private_seed this"

section \<open>Creating a signature operation\<close>

text \<open>
  \<open>create_signature_op\<close> leaves its first two parameters unnamed: the random number
  generator and the algorithm-name string. The generator is passed by reference; the model
  returns it beside the result. The operation object is the constructor
  \<open>XMSS_Signature_Operation\<close> applied to the key.
\<close>

datatype 'k Signature = XMSS_Signature_Operation 'k

definition create_signature_op ::
  "XMSS_PrivateKey \<Rightarrow> 'rng \<Rightarrow> string \<Rightarrow> string
     \<Rightarrow> (error + XMSS_PrivateKey Signature) \<times> 'rng" where
  "create_signature_op this rng params provider =
     (if provider = ''base'' \<or> provider = []
      then (Inr (XMSS_Signature_Operation this), rng)
      else (Inl (Provider_Not_Found (algo_name (public_key this)) provider), rng))"

text \<open>A small key for concrete evaluations.\<close>

definition toy_private_key :: XMSS_PrivateKey where
  "toy_private_key =
     \<lparr> public_key =
         \<lparr> algo_name = ''XMSS'',
           m_xmss_params = \<lparr> tree_height = 2, element_size = 1 \<rparr>,
           m_wots_params = \<lparr> wots_element_size = 1 \<rparr>,
           m_root = [7], m_public_seed = [9] \<rparr>,
       m_prf = [3], private_seed = [5], unused_leaf_index = 1 \<rparr>"

text \<open>
  A small public key format for concrete evaluations: one byte for the tree height, one
  for the element size, then the root and the public seed.
\<close>

definition toy_from_raw :: "bytes \<Rightarrow> error + XMSS_PublicKey" where
  "toy_from_raw raw =
     (case raw of
        h # n # rest \<Rightarrow>
          if length rest < 2 * unat n
          then Inl (Integrity_Failure ''Invalid XMSS public key size detected.'')
          else Inr \<lparr> algo_name = ''XMSS'',
                     m_xmss_params = \<lparr> tree_height = unat h, element_size = unat n \<rparr>,
                     m_wots_params = \<lparr> wots_element_size = unat n \<rparr>,
                     m_root = take (unat n) rest,
                     m_public_seed = take (unat n) (drop (unat n) rest) \<rparr>
      | _ \<Rightarrow> Inl (Integrity_Failure ''Invalid XMSS public key size detected.''))"

definition toy_public_ops :: XMSS_PublicKey_Ops where
  "toy_public_ops =
     \<lparr> XMSS_PublicKey_from_raw = toy_from_raw,
       XMSS_PublicKey_size = (\<lambda>pub. 2 + 2 * element_size (m_xmss_params pub)),
       raw_public_key = (\<lambda>pub. [word_of_nat (tree_height (m_xmss_params pub)),
                                  word_of_nat (element_size (m_xmss_params pub))]
                                 @ m_root pub @ m_public_seed pub) \<rparr>"

definition lp64 :: platform where
  "lp64 = \<lparr> sizeof_size_t = 8, has_threads = True, hardware_concurrency_log2 = 2 \<rparr>"

section \<open>Well-formed keys and public-key formats\<close>

text \<open>
  What the round trip asks of the public key class, for one public key: its raw form
  has the length \<open>size()\<close> announces, and its constructor reads the key back from any
  buffer that starts with the raw form.
\<close>

definition public_codec_ok :: "XMSS_PublicKey_Ops \<Rightarrow> XMSS_PublicKey \<Rightarrow> bool" where
  "public_codec_ok pko pub \<longleftrightarrow>
     (\<forall>rest. XMSS_PublicKey_from_raw pko (raw_public_key pko pub @ rest) = Inr pub) \<and>
     length (raw_public_key pko pub) = XMSS_PublicKey_size pko pub"

text \<open>
  The invariants of a constructed private key: a tree height for which the index bound
  \<open>1 << (h - 1)\<close> is a 64-bit value that fits \<open>size_t\<close>, an unused leaf index below
  that bound, and seeds of the element size (the one-time-signature parameters have the
  element size of the XMSS parameters).
\<close>

definition valid_private_key :: "platform \<Rightarrow> XMSS_PrivateKey \<Rightarrow> bool" where
  "valid_private_key plat key \<longleftrightarrow>
     (let h = tree_height (m_xmss_params (public_key key));
          n = element_size (m_xmss_params (public_key key));
          wn = wots_element_size (m_wots_params (public_key key))
      in 1 \<le> h \<and> h \<le> 64 \<and> (h + 7) div 8 \<le> sizeof_size_t plat \<and>
         unused_leaf_index key < 2 ^ (h - 1) \<and>
         length (m_prf key) = n \<and> length (private_seed key) = wn \<and> wn = n)"

text \<open>A raw key in the small format, with a given last byte of the index field.\<close>

definition toy_raw_key :: "8 word \<Rightarrow> bytes" where
  "toy_raw_key leaf = [2, 1, 7, 9, 0, 0, 0, 0, 0, 0, 0, leaf, 3, 5]"

section \<open>XMSS addresses\<close>

datatype Address_Type = OTS_Hash_Address | LTree_Address | Hash_Tree_Address

text \<open>
  Modelled from the spec: \<open>XMSS_Address\<close> is declared in \<open>xmss_address.h\<close>, outside
  the sources. The spec gives it the fields type, tree height, tree index, OTS address and
  L-tree address, each with a setter and a getter that touch that field alone. The fields
  are 32-bit unsigned words.
\<close>

record XMSS_Address =
  m_type :: Address_Type
  m_tree_height :: "32 word"
  m_tree_index :: "32 word"
  m_ots_address :: "32 word"
  m_ltree_address :: "32 word"

definition set_type :: "Address_Type \<Rightarrow> XMSS_Address \<Rightarrow> XMSS_Address" where
  "set_type t adrs = adrs\<lparr>m_type := t\<rparr>"

definition set_ots_address :: "32 word \<Rightarrow> XMSS_Address \<Rightarrow> XMSS_Address" where
  "set_ots_address v adrs = adrs\<lparr>m_ots_address := v\<rparr>"

definition set_ltree_address :: "32 word \<Rightarrow> XMSS_Address \<Rightarrow> XMSS_Address" where
  "set_ltree_address v adrs = adrs\<lparr>m_ltree_address := v\<rparr>"

definition set_tree_height :: "32 word \<Rightarrow> XMSS_Address \<Rightarrow> XMSS_Address" where
  "set_tree_height v adrs = adrs\<lparr>m_tree_height := v\<rparr>"

definition set_tree_index :: "32 word \<Rightarrow> XMSS_Address \<Rightarrow> XMSS_Address" where
  "set_tree_index v adrs = adrs\<lparr>m_tree_index := v\<rparr>"

definition get_tree_height :: "XMSS_Address \<Rightarrow> 32 word" where
  "get_tree_height adrs = m_tree_height adrs"

definition get_tree_index :: "XMSS_Address \<Rightarrow> 32 word" where
  "get_tree_index adrs = m_tree_index adrs"

text \<open>
  Modelled from the spec: the default constructor \<open>XMSS_Address()\<close>, outside the
  sources; a fresh address with every index at zero.
\<close>

definition fresh_address :: XMSS_Address where
  "fresh_address =
     \<lparr> m_type = OTS_Hash_Address, m_tree_height = 0, m_tree_index = 0,
       m_ots_address = 0, m_ltree_address = 0 \<rparr>"

section \<open>The hash operations the tree hash calls\<close>

text \<open>
  The one-time-signature key and \<open>XMSS_Common_Ops\<close> are outside the sources. The
  tree hash calls four of their functions, which are parameters of the model:
  \<open>wots_private_key().at(adrs, hash)\<close>, the one-time private key at an address;
  \<open>wots_private_key().generate_public_key(pk, sk, adrs, hash)\<close>, which fills \<open>pk\<close>;
  \<open>create_l_tree(result, pk, adrs, seed, hash)\<close> and
  \<open>randomize_tree_hash(result, left, right, adrs, seed, hash)\<close>. The last three take
  the address by reference and may change it, so each returns the address it leaves
  beside its result.
\<close>

record XMSS_Ops =
  wots_at :: "XMSS_PrivateKey \<Rightarrow> XMSS_Address \<Rightarrow> bytes list"
  generate_public_key ::
    "XMSS_PrivateKey \<Rightarrow> bytes list \<Rightarrow> XMSS_Address \<Rightarrow> bytes list \<times> XMSS_Address"
  create_l_tree :: "bytes list \<Rightarrow> XMSS_Address \<Rightarrow> bytes \<Rightarrow> bytes \<times> XMSS_Address"
  randomize_tree_hash :: "bytes \<Rightarrow> bytes \<Rightarrow> XMSS_Address \<Rightarrow> bytes \<Rightarrow> bytes \<times> XMSS_Address"

section \<open>The sequential tree hash: \<open>tree_hash_subtree\<close>\<close>

text \<open>
  The local state of \<open>tree_hash_subtree\<close>: the vectors \<open>nodes\<close> and
  \<open>node_levels\<close>, the stack level and the address the caller passed by reference.
  \<open>level\<close> and the entries of \<open>node_levels\<close> are \<open>uint8_t\<close>: natural numbers
  with the reduction modulo 256 written at each increment.
\<close>

record subtree_state =
  nodes :: "bytes list"
  node_levels :: "nat list"
  level :: nat
  adrs :: XMSS_Address

text \<open>
  The statements of the loop body that compute one leaf: the one-time public key at
  index \<open>i\<close>, its L-tree, and the address set to the hash tree address of leaf \<open>i\<close>.
\<close>

definition leaf_node ::
  "XMSS_Ops \<Rightarrow> XMSS_PrivateKey \<Rightarrow> nat \<Rightarrow> XMSS_Address \<Rightarrow> bytes \<times> XMSS_Address" where
  "leaf_node ops this i adrs0 =
     (let seed = m_public_seed (public_key this);
          a1 = set_ots_address (word_of_nat i) (set_type OTS_Hash_Address adrs0);
          (pk, a2) = generate_public_key ops this (wots_at ops this a1) a1;
          a3 = set_ltree_address (word_of_nat i) (set_type LTree_Address a2);
          (node, a4) = create_l_tree ops pk a3 seed;
          a5 = set_tree_index (word_of_nat i)
                 (set_tree_height 0 (set_type Hash_Tree_Address a4))
      in (node, a5))"

text \<open>
  The body of the inner loop: the two top entries of the stack are combined into their
  parent, which takes the place of the lower one, one level up; the address gets the
  parent's tree index before the hash and the next tree height after it.
\<close>

definition merge_top :: "XMSS_Ops \<Rightarrow> bytes \<Rightarrow> subtree_state \<Rightarrow> subtree_state" where
  "merge_top ops seed st =
     (let a1 = set_tree_index (drop_bit 1 (get_tree_index (adrs st) - 1)) (adrs st);
          r = randomize_tree_hash ops (nodes st ! (level st - 1)) (nodes st ! level st) a1 seed
      in \<lparr> nodes = (nodes st)[level st - 1 := fst r],
           node_levels = (node_levels st)
             [level st - 1 := (node_levels st ! (level st - 1) + 1) mod 256],
           level = level st - 1,
           adrs = set_tree_height (get_tree_height (snd r) + 1) (snd r) \<rparr>)"

text \<open>
  The inner loop \<open>while(level > 0 && node_levels[level] == node_levels[level - 1])\<close>.
  An index at or beyond the size of a vector is undefined behaviour.
\<close>

function combine :: "XMSS_Ops \<Rightarrow> bytes \<Rightarrow> subtree_state \<Rightarrow> error + subtree_state" where
  "combine ops seed st =
     (if level st > 0 then
        if length (node_levels st) \<le> level st \<or> length (nodes st) \<le> level st
        then Inl Undefined_Behaviour
        else if node_levels st ! level st = node_levels st ! (level st - 1)
        then combine ops seed (merge_top ops seed st)
        else Inr st
      else Inr st)"
  by pat_completeness auto
termination
  by (relation "measure (\<lambda>(ops, seed, st). level st)") (auto simp add: merge_top_def Let_def)

declare combine.simps [simp del]

text \<open>One iteration of the loop over the leaves.\<close>

definition subtree_step ::
  "XMSS_Ops \<Rightarrow> XMSS_PrivateKey \<Rightarrow> nat \<Rightarrow> subtree_state \<Rightarrow> error + subtree_state" where
  "subtree_step ops this i st =
     (if length (nodes st) \<le> level st \<or> length (node_levels st) \<le> level st
      then Inl Undefined_Behaviour
      else
        let r = leaf_node ops this i (adrs st);
            st1 = st\<lparr> nodes := (nodes st)[level st := fst r],
                      node_levels := (node_levels st)[level st := 0],
                      adrs := snd r \<rparr>
        in case combine ops (m_public_seed (public_key this)) st1 of
             Inl e \<Rightarrow> Inl e
           | Inr st2 \<Rightarrow> Inr (st2\<lparr>level := (level st2 + 1) mod 256\<rparr>))"

text \<open>The loop \<open>for(size_t i = start_idx; i < last_idx; i++)\<close>, over the list of its indices.\<close>

fun subtree_loop ::
  "XMSS_Ops \<Rightarrow> XMSS_PrivateKey \<Rightarrow> nat list \<Rightarrow> subtree_state \<Rightarrow> error + subtree_state" where
  "subtree_loop ops this [] st = Inr st"
| "subtree_loop ops this (i # idxs) st =
     (case subtree_step ops this i st of
        Inl e \<Rightarrow> Inl e
      | Inr st' \<Rightarrow> subtree_loop ops this idxs st')"

text \<open>
  \<open>tree_hash_subtree\<close>. The shift \<open>1 << target_node_height\<close> is a shift of an
  \<open>int\<close>, undefined from 31 on; the sum with \<open>start_idx\<close> is a \<open>size_t\<close> and
  wraps around. The result is assigned from \<open>nodes[level - 1]\<close>, and the caller's
  address is left as the loop leaves it.
\<close>

definition subtree_init :: "XMSS_PrivateKey \<Rightarrow> nat \<Rightarrow> XMSS_Address \<Rightarrow> subtree_state" where
  "subtree_init this target_node_height adrs0 =
     \<lparr> nodes = replicate (target_node_height + 1)
                 (replicate (element_size (m_xmss_params (public_key this))) 0),
       node_levels = replicate (target_node_height + 1) 0,
       level = 0,
       adrs = adrs0 \<rparr>"

definition tree_hash_subtree ::
  "platform \<Rightarrow> XMSS_Ops \<Rightarrow> XMSS_PrivateKey \<Rightarrow> nat \<Rightarrow> nat \<Rightarrow> XMSS_Address
     \<Rightarrow> error + bytes \<times> XMSS_Address" where
  "tree_hash_subtree plat ops this start_idx target_node_height adrs0 =
     (if 31 \<le> target_node_height then Inl Undefined_Behaviour
      else
        let last_idx = (2 ^ target_node_height + start_idx) mod size_t_max plat
        in case subtree_loop ops this [start_idx..<last_idx]
                  (subtree_init this target_node_height adrs0) of
             Inl e \<Rightarrow> Inl e
           | Inr st \<Rightarrow>
               if level st = 0 \<or> length (nodes st) < level st then Inl Undefined_Behaviour
               else Inr (nodes st ! (level st - 1), adrs st))"

section \<open>The parallel tree hash: \<open>tree_hash\<close>\<close>

text \<open>
  Joining the worker threads: each thread computes into its own element of \<open>nodes\<close>,
  with its own address and hash object, so the results are those of the calls taken one
  by one; undefined behaviour in one of them is undefined behaviour of the whole.
\<close>

fun join_all :: "(error + 'a) list \<Rightarrow> error + 'a list" where
  "join_all [] = Inr []"
| "join_all (r # rs) =
     (case r of
        Inl e \<Rightarrow> Inl e
      | Inr x \<Rightarrow> (case join_all rs of Inl e \<Rightarrow> Inl e | Inr xs \<Rightarrow> Inr (x # xs)))"

text \<open>
  One iteration of the loop \<open>for(size_t i = 0; i < (1 << level); i++)\<close>: the address
  of node \<open>i\<close> gets the height of the two children and the parent of the tree index of
  \<open>node_addresses[2 * i + 1]\<close>, and the thread started for \<open>i\<close> writes
  \<open>nodes[i]\<close> from the read-only copies of its children. Thread \<open>i\<close> writes
  \<open>nodes[i]\<close> and \<open>node_addresses[i]\<close> only, and the iterations after it read
  addresses of greater index, so the effect of the thread is taken at once.
\<close>

definition level_step ::
  "XMSS_Ops \<Rightarrow> bytes \<Rightarrow> nat \<Rightarrow> nat \<Rightarrow> bytes list \<Rightarrow> nat
     \<Rightarrow> bytes list \<times> XMSS_Address list \<Rightarrow> bytes list \<times> XMSS_Address list" where
  "level_step ops seed target_node_height lvl ro_nodes i s =
     (let ns = fst s;
          node_addresses = snd s;
          a = set_tree_index (drop_bit 1 (get_tree_index (node_addresses ! (2 * i + 1)) - 1))
                (set_tree_height (word_of_nat (target_node_height - (lvl + 1)))
                   (node_addresses ! i));
          r = randomize_tree_hash ops (ro_nodes ! (2 * i)) (ro_nodes ! (2 * i + 1)) a seed
      in (ns[i := fst r], node_addresses[i := snd r]))"

text \<open>
  The loop \<open>while(level-- > 1)\<close>; \<open>lvl\<close> is the value before the decrement.
  Copying \<open>1 << (level + 1)\<close> elements into \<open>ro_nodes\<close> needs that many elements;
  then every index of the iteration is inside its vector.
\<close>

function top_levels ::
  "XMSS_Ops \<Rightarrow> bytes \<Rightarrow> nat \<Rightarrow> nat \<Rightarrow> bytes list \<times> XMSS_Address list
     \<Rightarrow> error + bytes list \<times> XMSS_Address list" where
  "top_levels ops seed target_node_height lvl s =
     (if lvl > 1 then
        if length (fst s) < 2 ^ lvl \<or> length (snd s) < 2 ^ lvl
        then Inl Undefined_Behaviour
        else
          top_levels ops seed target_node_height (lvl - 1)
            (fold (level_step ops seed target_node_height (lvl - 1) (take (2 ^ lvl) (fst s)))
               [0..<2 ^ (lvl - 1)] s)
      else Inr s)"
  by pat_completeness auto
termination
  by (relation "measure (\<lambda>(ops, seed, h, lvl, s). lvl)") auto

declare top_levels.simps [simp del]

definition worker_assert_msg :: string where
  "worker_assert_msg =
     ''Number of worker threads in tree_hash need to divide range of calculated nodes.''"

text \<open>
  The part of \<open>tree_hash\<close> compiled with \<open>BOTAN_TARGET_OS_HAS_THREADS\<close>, after the
  split level was found positive. \<open>subtrees\<close>, \<open>last_idx\<close> and \<open>offs\<close> are
  \<open>size_t\<close>; a division by \<open>subtrees = 0\<close> is undefined. The caller's address is
  copied for the threads and not written.
\<close>

definition tree_hash_threads ::
  "platform \<Rightarrow> XMSS_Ops \<Rightarrow> XMSS_PrivateKey \<Rightarrow> nat \<Rightarrow> nat \<Rightarrow> XMSS_Address \<Rightarrow> nat
     \<Rightarrow> error + bytes \<times> XMSS_Address" where
  "tree_hash_threads plat ops this start_idx target_node_height adrs0 split_level =
     (let seed = m_public_seed (public_key this);
          subtrees = 2 ^ split_level mod size_t_max plat;
          last_idx = (2 ^ target_node_height + start_idx) mod size_t_max plat;
          span = (last_idx + size_t_max plat - start_idx) mod size_t_max plat
      in
      if subtrees = 0 then Inl Undefined_Behaviour
      else
        let offs = span div subtrees;
            lvl = split_level mod 256
        in
        if span mod subtrees \<noteq> 0 then Inl (Assertion_Failure worker_assert_msg)
        else
          case join_all
                 (map (\<lambda>i. tree_hash_subtree plat ops this
                              ((start_idx + i * offs) mod size_t_max plat)
                              (target_node_height - split_level) adrs0)
                    [0..<subtrees]) of
            Inl e \<Rightarrow> Inl e
          | Inr results \<Rightarrow>
              (case top_levels ops seed target_node_height lvl
                      (map fst results, map snd results) of
                 Inl e \<Rightarrow> Inl e
               | Inr s \<Rightarrow>
                   if length (fst s) < 2 \<or> length (snd s) < 2 then Inl Undefined_Behaviour
                   else
                     let a = set_tree_index (drop_bit 1 (get_tree_index (snd s ! 1) - 1))
                               (set_tree_height (word_of_nat (target_node_height - 1)) (snd s ! 0));
                         r = randomize_tree_hash ops (fst s ! 0) (fst s ! 1) a seed
                     in Inr (fst r, adrs0)))"

definition align_assert_msg :: string where
  "align_assert_msg = ''Start index must be divisible by 2^{target node height}.''"

text \<open>
  \<open>tree_hash\<close>. Without threads the function is the assertion and the sequential
  computation, which is also what a split level of zero selects; the split level is the
  least of the target height and \<open>ceil(log2(hardware_concurrency()))\<close>.
\<close>

definition tree_hash ::
  "platform \<Rightarrow> XMSS_Ops \<Rightarrow> XMSS_PrivateKey \<Rightarrow> nat \<Rightarrow> nat \<Rightarrow> XMSS_Address
     \<Rightarrow> error + bytes \<times> XMSS_Address" where
  "tree_hash plat ops this start_idx target_node_height adrs0 =
     (if 31 \<le> target_node_height then Inl Undefined_Behaviour
      else if start_idx mod 2 ^ target_node_height \<noteq> 0 then Inl (Assertion_Failure align_assert_msg)
      else
        let split_level =
              (if has_threads plat
               then min target_node_height (hardware_concurrency_log2 plat) else 0)
        in if split_level = 0
           then tree_hash_subtree plat ops this start_idx target_node_height adrs0
           else tree_hash_threads plat ops this start_idx target_node_height adrs0 split_level)"

section \<open>Construction from a random number generator\<close>

text \<open>
  Modelled from the spec: a random source yields byte sequences on request. It is the
  stream of the bytes it will yield; \<open>random_vec\<close> takes the first \<open>n\<close>.
\<close>

type_synonym RandomNumberGenerator = "nat \<Rightarrow> 8 word"

definition random_vec :: "RandomNumberGenerator \<Rightarrow> nat \<Rightarrow> bytes \<times> RandomNumberGenerator" where
  "random_vec rng n = (map rng [0..<n], \<lambda>k. rng (k + n))"

text \<open>
  The constructor \<open>XMSS_PrivateKey(xmss_algo_id, rng)\<close>. The parameter sets that the
  algorithm identifier selects are given as they are. Modelled from the spec: the
  constructors of the public key and of the one-time-signature key are outside the
  sources; the spec has the public seed, the private seed and the PRF seed drawn from
  the random source, and the leaf index of a new key at 0. The body computes the root
  with \<open>tree_hash(0, tree_height, adrs)\<close> on a fresh address.
\<close>

definition XMSS_PrivateKey_from_rng ::
  "platform \<Rightarrow> XMSS_Ops \<Rightarrow> string \<Rightarrow> XMSS_Parameters \<Rightarrow> XMSS_WOTS_Parameters
     \<Rightarrow> RandomNumberGenerator \<Rightarrow> error + XMSS_PrivateKey \<times> RandomNumberGenerator" where
  "XMSS_PrivateKey_from_rng plat ops name params wots_params rng =
     (let r1 = random_vec rng (element_size params);
          pub = \<lparr> algo_name = name, m_xmss_params = params, m_wots_params = wots_params,
                  m_root = replicate (element_size params) 0, m_public_seed = fst r1 \<rparr>;
          r2 = random_vec (snd r1) (wots_element_size wots_params);
          r3 = random_vec (snd r2) (element_size params);
          this = \<lparr> public_key = pub, m_prf = fst r3, private_seed = fst r2,
                   unused_leaf_index = 0 \<rparr>
      in case tree_hash plat ops this 0 (tree_height params) fresh_address of
           Inl e \<Rightarrow> Inl e
         | Inr root \<Rightarrow> Inr (this\<lparr>public_key := pub\<lparr>m_root := fst root\<rparr>\<rparr>, snd r3))"

section \<open>What the tree hash computes\<close>

text \<open>
  The parts of an address that the hash operations of each address type read:
  the type with the OTS address, with the L-tree address, or with the tree height and
  the tree index.
\<close>

definition ots_view :: "XMSS_Address \<Rightarrow> Address_Type \<times> 32 word" where
  "ots_view a = (m_type a, m_ots_address a)"

definition ltree_view :: "XMSS_Address \<Rightarrow> Address_Type \<times> 32 word" where
  "ltree_view a = (m_type a, m_ltree_address a)"

definition tree_view :: "XMSS_Address \<Rightarrow> Address_Type \<times> 32 word \<times> 32 word" where
  "tree_view a = (m_type a, m_tree_height a, m_tree_index a)"

text \<open>
  The discipline of the hash operations towards the address: each result depends on the
  address through the fields of its own type only, and \<open>randomize_tree_hash\<close> leaves
  the type, the tree height and the tree index as it found them. (The operations write
  the remaining words of the address, such as the key-and-mask selector, before they
  read them.)
\<close>

definition address_discipline :: "XMSS_Ops \<Rightarrow> XMSS_PrivateKey \<Rightarrow> bool" where
  "address_discipline ops this \<longleftrightarrow>
     (\<forall>a b. ots_view a = ots_view b \<longrightarrow> wots_at ops this a = wots_at ops this b) \<and>
     (\<forall>sk a b. ots_view a = ots_view b \<longrightarrow>
        fst (generate_public_key ops this sk a) = fst (generate_public_key ops this sk b)) \<and>
     (\<forall>pk a b. ltree_view a = ltree_view b \<longrightarrow>
        fst (create_l_tree ops pk a (m_public_seed (public_key this))) =
        fst (create_l_tree ops pk b (m_public_seed (public_key this)))) \<and>
     (\<forall>l r a b. tree_view a = tree_view b \<longrightarrow>
        fst (randomize_tree_hash ops l r a (m_public_seed (public_key this))) =
        fst (randomize_tree_hash ops l r b (m_public_seed (public_key this)))) \<and>
     (\<forall>l r a. tree_view (snd (randomize_tree_hash ops l r a (m_public_seed (public_key this)))) =
        tree_view a)"

text \<open>
  The tree index that the address holds, and the node that the stack holds, once the
  \<open>2^t\<close> leaves from index \<open>a\<close> on have been combined: the parent takes the index
  \<open>(index - 1) >> 1\<close> of its right child.
\<close>

fun subtree_index :: "nat \<Rightarrow> nat \<Rightarrow> 32 word" where
  "subtree_index 0 a = word_of_nat a"
| "subtree_index (Suc t) a = drop_bit 1 (subtree_index t (a + 2 ^ t) - 1)"

fun subtree_node :: "XMSS_Ops \<Rightarrow> XMSS_PrivateKey \<Rightarrow> nat \<Rightarrow> nat \<Rightarrow> bytes" where
  "subtree_node ops this 0 a = fst (leaf_node ops this a fresh_address)"
| "subtree_node ops this (Suc t) a =
     fst (randomize_tree_hash ops (subtree_node ops this t a) (subtree_node ops this t (a + 2 ^ t))
            \<lparr> m_type = Hash_Tree_Address, m_tree_height = word_of_nat t,
              m_tree_index = subtree_index (Suc t) a, m_ots_address = 0, m_ltree_address = 0 \<rparr>
            (m_public_seed (public_key this)))"

text \<open>
  The Merkle tree as the spec describes it. The leaf of index \<open>i\<close> is the L-tree (under
  the L-tree address \<open>i\<close>) of the one-time public key derived under the OTS address
  \<open>i\<close>; the node of index \<open>j\<close> at height \<open>t + 1\<close> combines the nodes \<open>2 * j\<close> and
  \<open>2 * j + 1\<close> at height \<open>t\<close> under the hash tree address of height \<open>t\<close> and index
  \<open>j\<close>. It covers the leaves from \<open>j * 2^(t + 1)\<close> up to \<open>(j + 1) * 2^(t + 1)\<close>.
\<close>

definition merkle_leaf :: "XMSS_Ops \<Rightarrow> XMSS_PrivateKey \<Rightarrow> nat \<Rightarrow> bytes" where
  "merkle_leaf ops this i =
     (let ots = \<lparr> m_type = OTS_Hash_Address, m_tree_height = 0, m_tree_index = 0,
                  m_ots_address = word_of_nat i, m_ltree_address = 0 \<rparr>;
          pk = fst (generate_public_key ops this (wots_at ops this ots) ots);
          ltree = \<lparr> m_type = LTree_Address, m_tree_height = 0, m_tree_index = 0,
                    m_ots_address = 0, m_ltree_address = word_of_nat i \<rparr>
      in fst (create_l_tree ops pk ltree (m_public_seed (public_key this))))"

fun merkle_node :: "XMSS_Ops \<Rightarrow> XMSS_PrivateKey \<Rightarrow> nat \<Rightarrow> nat \<Rightarrow> bytes" where
  "merkle_node ops this 0 j = merkle_leaf ops this j"
| "merkle_node ops this (Suc t) j =
     fst (randomize_tree_hash ops (merkle_node ops this t (2 * j)) (merkle_node ops this t (2 * j + 1))
            \<lparr> m_type = Hash_Tree_Address, m_tree_height = word_of_nat t,
              m_tree_index = word_of_nat j, m_ots_address = 0, m_ltree_address = 0 \<rparr>
            (m_public_seed (public_key this)))"

section \<open>Invariants of the tree hash\<close>

text \<open>
  The stack of \<open>tree_hash_subtree\<close> holds subtrees: a subtree of height \<open>t\<close> over
  the leaves from \<open>a\<close> on is the pair \<open>(t, a)\<close>, and a stack is the list of its
  subtrees with the top first. \<open>merged\<close> is what the inner loop makes of a stack
  whose first element was just put on it: while the two top subtrees have the same
  height they become one subtree, one level higher, at the position of the lower one.
\<close>

fun merged :: "(nat \<times> nat) list \<Rightarrow> (nat \<times> nat) list" where
  "merged ((t, a') # (t', a) # S) =
     (if t = t' then merged ((Suc t', a) # S) else (t, a') # (t', a) # S)"
| "merged S = S"

text \<open>Each subtree of a stack starts where the one below it ends.\<close>

fun contiguous :: "(nat \<times> nat) list \<Rightarrow> bool" where
  "contiguous ((t', a') # (t, a) # S) = (a' = a + 2 ^ t \<and> contiguous ((t, a) # S))"
| "contiguous S = True"

text \<open>
  The first \<open>L\<close> entries of the vectors \<open>node_levels\<close> and \<open>nodes\<close> hold the
  stack \<open>S\<close>: the entry of a subtree has its height as level and a node for which
  \<open>Qn\<close> holds at that height and start.
\<close>

fun stack_rel ::
  "(nat \<Rightarrow> nat \<Rightarrow> bytes \<Rightarrow> bool) \<Rightarrow> nat list \<Rightarrow> bytes list \<Rightarrow> nat \<Rightarrow> (nat \<times> nat) list \<Rightarrow> bool" where
  "stack_rel Qn nl ns L [] = (L = 0)"
| "stack_rel Qn nl ns L ((t, a) # S) =
     (0 < L \<and> nl ! (L - 1) = t \<and> Qn t a (ns ! (L - 1)) \<and> stack_rel Qn nl ns (L - 1) S)"

text \<open>
  What the invariant asks of the predicates on nodes (\<open>Qn\<close>) and on the address
  (\<open>Qa\<close>): they hold of the result and the address of the leaf computation, and they
  are kept when the inner loop combines two neighbours.
\<close>

definition merge_closed ::
  "XMSS_Ops \<Rightarrow> bytes \<Rightarrow> (nat \<Rightarrow> nat \<Rightarrow> bytes \<Rightarrow> bool) \<Rightarrow> (nat \<Rightarrow> nat \<Rightarrow> XMSS_Address \<Rightarrow> bool) \<Rightarrow> bool" where
  "merge_closed ops seed Qn Qa \<longleftrightarrow>
     (\<forall>t a x y ad. Qn t a x \<and> Qn t (a + 2 ^ t) y \<and> Qa t (a + 2 ^ t) ad \<longrightarrow>
        (let a1 = set_tree_index (drop_bit 1 (get_tree_index ad - 1)) ad;
             r = randomize_tree_hash ops x y a1 seed
         in Qn (Suc t) a (fst r) \<and>
            Qa (Suc t) a (set_tree_height (get_tree_height (snd r) + 1) (snd r))))"

definition leaf_closed ::
  "XMSS_Ops \<Rightarrow> XMSS_PrivateKey \<Rightarrow> (nat \<Rightarrow> nat \<Rightarrow> bytes \<Rightarrow> bool) \<Rightarrow> (nat \<Rightarrow> nat \<Rightarrow> XMSS_Address \<Rightarrow> bool) \<Rightarrow> bool" where
  "leaf_closed ops this Qn Qa \<longleftrightarrow>
     (\<forall>i ad. Qn 0 i (fst (leaf_node ops this i ad)) \<and> Qa 0 i (snd (leaf_node ops this i ad)))"

text \<open>
  The invariant of the loop over the leaves, for vectors of size \<open>H + 1\<close>: the
  vectors hold the stack up to \<open>level\<close>, the stack is contiguous, and the address
  is the one of its top subtree.
\<close>

definition stack_inv ::
  "(nat \<Rightarrow> nat \<Rightarrow> bytes \<Rightarrow> bool) \<Rightarrow> (nat \<Rightarrow> nat \<Rightarrow> XMSS_Address \<Rightarrow> bool) \<Rightarrow> nat
     \<Rightarrow> subtree_state \<Rightarrow> (nat \<times> nat) list \<Rightarrow> bool" where
  "stack_inv Qn Qa H st S \<longleftrightarrow>
     stack_rel Qn (node_levels st) (nodes st) (level st) S \<and>
     length (nodes st) = Suc H \<and> length (node_levels st) = Suc H \<and> contiguous S \<and>
     (S \<noteq> [] \<longrightarrow> Qa (fst (hd S)) (snd (hd S)) (adrs st))"

text \<open>
  The stack of pending nodes as a list, the top first: the entries of \<open>nodes\<close> and
  \<open>node_levels\<close> up to the index \<open>level\<close>, where the pending node is, each node
  with its level.
\<close>

definition pending_stack :: "subtree_state \<Rightarrow> (bytes \<times> nat) list" where
  "pending_stack st =
     rev (zip (take (Suc (level st)) (nodes st)) (take (Suc (level st)) (node_levels st)))"

text \<open>
  The combination step on that list: as long as the two top entries have the same
  level they are popped, and their parent, the hash of the lower one and the upper one,
  is pushed one level up (levels are \<open>uint8_t\<close>); the address gets the tree index
  of the parent before the hash and the next tree height after it.
\<close>

fun pop_and_combine ::
  "XMSS_Ops \<Rightarrow> bytes \<Rightarrow> (bytes \<times> nat) list \<Rightarrow> XMSS_Address
     \<Rightarrow> (bytes \<times> nat) list \<times> XMSS_Address" where
  "pop_and_combine ops seed ((y, ly) # (x, lx) # S) ad =
     (if ly = lx then
        let r = randomize_tree_hash ops x y
                  (set_tree_index (drop_bit 1 (get_tree_index ad - 1)) ad) seed
        in pop_and_combine ops seed ((fst r, (lx + 1) mod 256) # S)
             (set_tree_height (get_tree_height (snd r) + 1) (snd r))
      else ((y, ly) # (x, lx) # S, ad))"
| "pop_and_combine ops seed S ad = (S, ad)"

text \<open>
  The two predicates for the values: the node of a subtree is \<open>subtree_node\<close>, and
  the address after it is a hash tree address of its height and \<open>subtree_index\<close>.
\<close>

definition node_is :: "XMSS_Ops \<Rightarrow> XMSS_PrivateKey \<Rightarrow> nat \<Rightarrow> nat \<Rightarrow> bytes \<Rightarrow> bool" where
  "node_is ops this t a x \<longleftrightarrow> x = subtree_node ops this t a"

definition adrs_is :: "nat \<Rightarrow> nat \<Rightarrow> XMSS_Address \<Rightarrow> bool" where
  "adrs_is t a ad \<longleftrightarrow> tree_view ad = (Hash_Tree_Address, word_of_nat t, subtree_index t a)"

text \<open>
  The invariant of the loop over the top levels of the parallel tree hash: with
  \<open>2^lvl\<close> nodes left, node \<open>i\<close> is the subtree of height \<open>h - lvl\<close> number
  \<open>i\<close> from \<open>start_idx\<close> on, and its address holds the tree index of that subtree.
\<close>

definition level_inv ::
  "XMSS_Ops \<Rightarrow> XMSS_PrivateKey \<Rightarrow> nat \<Rightarrow> nat \<Rightarrow> nat \<Rightarrow> bytes list \<times> XMSS_Address list \<Rightarrow> bool" where
  "level_inv ops this h start_idx lvl s \<longleftrightarrow>
     2 ^ lvl \<le> length (fst s) \<and> 2 ^ lvl \<le> length (snd s) \<and>
     (\<forall>i<2 ^ lvl.
        fst s ! i = subtree_node ops this (h - lvl) (start_idx + i * 2 ^ (h - lvl)) \<and>
        m_type (snd s ! i) = Hash_Tree_Address \<and>
        m_tree_index (snd s ! i) = subtree_index (h - lvl) (start_idx + i * 2 ^ (h - lvl)))"

text \<open>
  Hash operations for concrete evaluations. They write down what they are given: the
  key material, the fields of the address of their type, and their arguments; and each
  changes fields of the address that belong to another type.
\<close>

definition toy_ops :: XMSS_Ops where
  "toy_ops =
     \<lparr> wots_at = (\<lambda>this a. [private_seed this @ [ucast (m_ots_address a)]]),
       generate_public_key = (\<lambda>this sk a. (map (\<lambda>k. 0x50 # k) sk, a\<lparr>m_tree_index := 99\<rparr>)),
       create_l_tree = (\<lambda>pk a seed. (0x4C # ucast (m_ltree_address a) # concat pk @ seed,
                                     a\<lparr>m_tree_height := 77\<rparr>)),
       randomize_tree_hash = (\<lambda>l r a seed.
          (0x48 # ucast (m_tree_height a) # ucast (m_tree_index a) # l @ r,
           a\<lparr>m_ots_address := 1, m_ltree_address := 2\<rparr>)) \<rparr>"




section \<open>Theorems: key constraints\<close>

lemma and_eq_iff_bits:
  fixes v p :: "32 word"
  shows "(v AND p = v) \<longleftrightarrow> (\<forall>n. bit v n \<longrightarrow> bit p n)"
proof
  assume h: "v AND p = v"
  show "\<forall>n. bit v n \<longrightarrow> bit p n"
  proof (intro allI impI)
    fix n assume "bit v n"
    then have "bit (v AND p) n" using h by simp
    then show "bit p n" by (simp add: bit_and_iff)
  qed
next
  assume "\<forall>n. bit v n \<longrightarrow> bit p n"
  then show "v AND p = v"
    by (intro bit_eqI) (auto simp add: bit_and_iff)
qed

lemma permitted_unfold:
  "permitted K name =
     (if can_agree name then KEY_AGREEMENT K OR ENCIPHER_ONLY K OR DECIPHER_ONLY K else 0) OR
     (if can_encrypt name then KEY_ENCIPHERMENT K OR DATA_ENCIPHERMENT K else 0) OR
     (if can_sign name
      then DIGITAL_SIGNATURE K OR NON_REPUDIATION K OR KEY_CERT_SIGN K OR CRL_SIGN K else 0)"
  by (simp add: permitted_def Let_def ac_simps)

lemma permitted_bit:
  "bit (permitted K name) n \<longleftrightarrow>
     (name = ''DH'' \<or> name = ''ECDH'' \<or> prefix ''Kyber-'' name) \<and>
       (bit (KEY_AGREEMENT K) n \<or> bit (ENCIPHER_ONLY K) n \<or> bit (DECIPHER_ONLY K) n) \<or>
     (name = ''RSA'' \<or> name = ''ElGamal'' \<or> prefix ''Kyber-'' name) \<and>
       (bit (KEY_ENCIPHERMENT K) n \<or> bit (DATA_ENCIPHERMENT K) n) \<or>
     (name = ''RSA'' \<or> name = ''DSA'' \<or> name = ''ECDSA'' \<or> name = ''ECGDSA'' \<or>
      name = ''ECKCDSA'' \<or> name = ''Ed25519'' \<or> name = ''GOST-34.10'' \<or>
      name = ''GOST-34.10-2012-256'' \<or> name = ''GOST-34.10-2012-512'' \<or>
      prefix ''Dilithium-'' name) \<and>
       (bit (DIGITAL_SIGNATURE K) n \<or> bit (NON_REPUDIATION K) n \<or> bit (KEY_CERT_SIGN K) n \<or>
        bit (CRL_SIGN K) n)"
  unfolding permitted_unfold can_agree_def [symmetric] can_encrypt_def [symmetric]
    can_sign_def [symmetric]
  by (simp add: bit_or_iff)

text \<open>
  C10. \<open>compatible_with\<close> returns true exactly when every set bit of the constraint
  value is a bit that the algorithm name of the key permits: a bit of \<open>KEY_AGREEMENT\<close>,
  \<open>ENCIPHER_ONLY\<close> or \<open>DECIPHER_ONLY\<close> for DH, ECDH and the names that start with
  Kyber-; a bit of \<open>KEY_ENCIPHERMENT\<close> or \<open>DATA_ENCIPHERMENT\<close> for RSA, ElGamal and
  Kyber-; a bit of \<open>DIGITAL_SIGNATURE\<close>, \<open>NON_REPUDIATION\<close>, \<open>KEY_CERT_SIGN\<close> or
  \<open>CRL_SIGN\<close> for RSA, DSA, ECDSA, ECGDSA, ECKCDSA, Ed25519, the three GOST-34.10
  names and the names that start with Dilithium-. The permitted mask is the union of
  these three groups of bits, and the value with no bit set is compatible with every
  key, whatever its algorithm name.
\<close>

theorem compatible_with_iff_bits_permitted:
  "(compatible_with K v pk \<longleftrightarrow>
      (\<forall>n. bit v n \<longrightarrow>
         (algo_name pk = ''DH'' \<or> algo_name pk = ''ECDH'' \<or> prefix ''Kyber-'' (algo_name pk)) \<and>
           (bit (KEY_AGREEMENT K) n \<or> bit (ENCIPHER_ONLY K) n \<or> bit (DECIPHER_ONLY K) n) \<or>
         (algo_name pk = ''RSA'' \<or> algo_name pk = ''ElGamal'' \<or>
          prefix ''Kyber-'' (algo_name pk)) \<and>
           (bit (KEY_ENCIPHERMENT K) n \<or> bit (DATA_ENCIPHERMENT K) n) \<or>
         (algo_name pk = ''RSA'' \<or> algo_name pk = ''DSA'' \<or> algo_name pk = ''ECDSA'' \<or>
          algo_name pk = ''ECGDSA'' \<or> algo_name pk = ''ECKCDSA'' \<or>
          algo_name pk = ''Ed25519'' \<or> algo_name pk = ''GOST-34.10'' \<or>
          algo_name pk = ''GOST-34.10-2012-256'' \<or> algo_name pk = ''GOST-34.10-2012-512'' \<or>
          prefix ''Dilithium-'' (algo_name pk)) \<and>
           (bit (DIGITAL_SIGNATURE K) n \<or> bit (NON_REPUDIATION K) n \<or>
            bit (KEY_CERT_SIGN K) n \<or> bit (CRL_SIGN K) n))) \<and>
   (compatible_with K v pk \<longleftrightarrow> (\<forall>n. bit v n \<longrightarrow> bit (permitted K (algo_name pk)) n)) \<and>
   permitted K (algo_name pk) =
     ((if algo_name pk = ''DH'' \<or> algo_name pk = ''ECDH'' \<or> prefix ''Kyber-'' (algo_name pk)
       then KEY_AGREEMENT K OR ENCIPHER_ONLY K OR DECIPHER_ONLY K else 0) OR
      (if algo_name pk = ''RSA'' \<or> algo_name pk = ''ElGamal'' \<or>
          prefix ''Kyber-'' (algo_name pk)
       then KEY_ENCIPHERMENT K OR DATA_ENCIPHERMENT K else 0) OR
      (if algo_name pk = ''RSA'' \<or> algo_name pk = ''DSA'' \<or> algo_name pk = ''ECDSA'' \<or>
          algo_name pk = ''ECGDSA'' \<or> algo_name pk = ''ECKCDSA'' \<or>
          algo_name pk = ''Ed25519'' \<or> algo_name pk = ''GOST-34.10'' \<or>
          algo_name pk = ''GOST-34.10-2012-256'' \<or> algo_name pk = ''GOST-34.10-2012-512'' \<or>
          prefix ''Dilithium-'' (algo_name pk)
       then DIGITAL_SIGNATURE K OR NON_REPUDIATION K OR KEY_CERT_SIGN K OR CRL_SIGN K else 0)) \<and>
   compatible_with K 0 pk"
proof -
  have a: "compatible_with K v pk \<longleftrightarrow> (\<forall>n. bit v n \<longrightarrow> bit (permitted K (algo_name pk)) n)"
    using and_eq_iff_bits [of v "permitted K (algo_name pk)"]
    by (simp add: compatible_with_def Let_def)
  have z: "compatible_with K 0 pk"
    by (simp add: compatible_with_def Let_def)
  have p: "permitted K (algo_name pk) =
     ((if algo_name pk = ''DH'' \<or> algo_name pk = ''ECDH'' \<or> prefix ''Kyber-'' (algo_name pk)
       then KEY_AGREEMENT K OR ENCIPHER_ONLY K OR DECIPHER_ONLY K else 0) OR
      (if algo_name pk = ''RSA'' \<or> algo_name pk = ''ElGamal'' \<or>
          prefix ''Kyber-'' (algo_name pk)
       then KEY_ENCIPHERMENT K OR DATA_ENCIPHERMENT K else 0) OR
      (if algo_name pk = ''RSA'' \<or> algo_name pk = ''DSA'' \<or> algo_name pk = ''ECDSA'' \<or>
          algo_name pk = ''ECGDSA'' \<or> algo_name pk = ''ECKCDSA'' \<or>
          algo_name pk = ''Ed25519'' \<or> algo_name pk = ''GOST-34.10'' \<or>
          algo_name pk = ''GOST-34.10-2012-256'' \<or> algo_name pk = ''GOST-34.10-2012-512'' \<or>
          prefix ''Dilithium-'' (algo_name pk)
       then DIGITAL_SIGNATURE K OR NON_REPUDIATION K OR KEY_CERT_SIGN K OR CRL_SIGN K else 0))"
    unfolding permitted_unfold can_agree_def can_encrypt_def can_sign_def ..
  show ?thesis
    unfolding a [unfolded permitted_bit, symmetric]
    using a p z by (simp only: simp_thms)
qed

theorem compatible_with_iff_bits_permitted_witness:
  "compatible_with botan_bits 0x8400 \<lparr> algo_name = ''RSA'' \<rparr> \<and>
   \<not> compatible_with botan_bits 0x8400 \<lparr> algo_name = ''DH'' \<rparr> \<and>
   compatible_with botan_bits 0x0980 \<lparr> algo_name = ''DH'' \<rparr> \<and>
   compatible_with botan_bits 0x0800 \<lparr> algo_name = ''ECDH'' \<rparr> \<and>
   \<not> compatible_with botan_bits 0x0800 \<lparr> algo_name = ''RSA'' \<rparr> \<and>
   compatible_with botan_bits 0x3000 \<lparr> algo_name = ''ElGamal'' \<rparr> \<and>
   \<not> compatible_with botan_bits 0x2000 \<lparr> algo_name = ''ECDSA'' \<rparr> \<and>
   compatible_with botan_bits 0x3980 \<lparr> algo_name = ''Kyber-512-r3'' \<rparr> \<and>
   \<not> compatible_with botan_bits 0x8000 \<lparr> algo_name = ''Kyber-512-r3'' \<rparr> \<and>
   compatible_with botan_bits 0xC600 \<lparr> algo_name = ''Dilithium-4x4-r3'' \<rparr> \<and>
   bit (permitted botan_bits ''RSA'') 10 \<and>
   permitted botan_bits ''RSA'' = 0xF600 \<and>
   permitted botan_bits ''DH'' = 0x0980 \<and>
   permitted botan_bits ''ElGamal'' = 0x3000 \<and>
   permitted botan_bits ''Ed25519'' = 0xC600 \<and>
   permitted botan_bits ''XMSS'' = 0 \<and>
   \<not> compatible_with botan_bits 0x8000 \<lparr> algo_name = ''XMSS'' \<rparr> \<and>
   compatible_with botan_bits 0 \<lparr> algo_name = ''XMSS'' \<rparr>"
proof -
  note t = compatible_with_iff_bits_permitted
  have p: "permitted botan_bits ''RSA'' = 0xF600" "permitted botan_bits ''DH'' = 0x0980"
    "permitted botan_bits ''ElGamal'' = 0x3000" "permitted botan_bits ''Ed25519'' = 0xC600"
    "permitted botan_bits ''XMSS'' = 0"
    "permitted botan_bits ''ECDH'' = 0x0980" "permitted botan_bits ''ECDSA'' = 0xC600"
    "permitted botan_bits ''Kyber-512-r3'' = 0x3980"
    "permitted botan_bits ''Dilithium-4x4-r3'' = 0xC600"
    using conjunct1 [OF conjunct2 [OF conjunct2 [OF t [of botan_bits 0 "\<lparr> algo_name = ''RSA'' \<rparr>"]]]]
      conjunct1 [OF conjunct2 [OF conjunct2 [OF t [of botan_bits 0 "\<lparr> algo_name = ''DH'' \<rparr>"]]]]
      conjunct1 [OF conjunct2 [OF conjunct2 [OF t [of botan_bits 0 "\<lparr> algo_name = ''ElGamal'' \<rparr>"]]]]
      conjunct1 [OF conjunct2 [OF conjunct2 [OF t [of botan_bits 0 "\<lparr> algo_name = ''Ed25519'' \<rparr>"]]]]
      conjunct1 [OF conjunct2 [OF conjunct2 [OF t [of botan_bits 0 "\<lparr> algo_name = ''XMSS'' \<rparr>"]]]]
      conjunct1 [OF conjunct2 [OF conjunct2 [OF t [of botan_bits 0 "\<lparr> algo_name = ''ECDH'' \<rparr>"]]]]
      conjunct1 [OF conjunct2 [OF conjunct2 [OF t [of botan_bits 0 "\<lparr> algo_name = ''ECDSA'' \<rparr>"]]]]
      conjunct1 [OF conjunct2 [OF conjunct2 [OF t [of botan_bits 0 "\<lparr> algo_name = ''Kyber-512-r3'' \<rparr>"]]]]
      conjunct1 [OF conjunct2 [OF conjunct2 [OF t [of botan_bits 0 "\<lparr> algo_name = ''Dilithium-4x4-r3'' \<rparr>"]]]]
    by (simp_all add: botan_bits_def)
  have z: "compatible_with botan_bits 0 \<lparr> algo_name = ''XMSS'' \<rparr>"
    by (rule conjunct2 [OF conjunct2 [OF conjunct2
        [OF t [of botan_bits 0 "\<lparr> algo_name = ''XMSS'' \<rparr>"]]]])
  have c: "compatible_with botan_bits 0x8400 \<lparr> algo_name = ''RSA'' \<rparr>"
    using p by (simp add: compatible_with_def)
  have b: "bit (0x8400 :: 32 word) 10"
    by simp
  from conjunct1 [OF conjunct2 [OF t [of botan_bits "0x8400" "\<lparr> algo_name = ''RSA'' \<rparr>"]]] c
  have "\<forall>n. bit (0x8400 :: 32 word) n \<longrightarrow>
          bit (permitted botan_bits (algo_name \<lparr> algo_name = ''RSA'' \<rparr>)) n"
    by (rule iffD1)
  with b have "bit (permitted botan_bits (algo_name \<lparr> algo_name = ''RSA'' \<rparr>)) 10"
    by blast
  then have r: "bit (permitted botan_bits ''RSA'') 10"
    by simp
  show ?thesis
    using p z r by (simp add: compatible_with_def)
qed

section \<open>Theorems: creating a signature operation\<close>

text \<open>
  C8. With the empty provider name or the default provider \<open>base\<close>,
  \<open>create_signature_op\<close> returns the signature operation of the key; with any other
  provider name it throws \<open>Provider_Not_Found\<close>, built from the key's algorithm name
  and the requested provider.
\<close>

theorem create_signature_op_provider:
  "(provider = [] \<or> provider = ''base'' \<longrightarrow>
      fst (create_signature_op key rng params provider) = Inr (XMSS_Signature_Operation key)) \<and>
   (provider \<noteq> [] \<and> provider \<noteq> ''base'' \<longrightarrow>
      fst (create_signature_op key rng params provider) =
        Inl (Provider_Not_Found (algo_name (public_key key)) provider))"
  by (simp add: create_signature_op_def)

theorem create_signature_op_provider_witness:
  "fst (create_signature_op toy_private_key (0::nat) ''SHA2_10_256'' ''base'') =
     Inr (XMSS_Signature_Operation toy_private_key) \<and>
   fst (create_signature_op toy_private_key (0::nat) ''SHA2_10_256'' []) =
     Inr (XMSS_Signature_Operation toy_private_key) \<and>
   fst (create_signature_op toy_private_key (0::nat) ''SHA2_10_256'' ''pkcs11'') =
     Inl (Provider_Not_Found ''XMSS'' ''pkcs11'')"
  using create_signature_op_provider [of "''base''" toy_private_key "0::nat" "''SHA2_10_256''"]
    create_signature_op_provider [of "[]" toy_private_key "0::nat" "''SHA2_10_256''"]
    create_signature_op_provider [of "''pkcs11''" toy_private_key "0::nat" "''SHA2_10_256''"]
  by (simp add: toy_private_key_def)

text \<open>
  C9. The outcome of \<open>create_signature_op\<close> is a function of the key and the provider
  name alone: two calls with the same key and provider give the same result whatever the
  random number generators and the algorithm-name strings are, and the generator comes
  back as it was passed.
\<close>

theorem create_signature_op_ignores_rng_and_params:
  "fst (create_signature_op key rng1 params1 provider) =
     fst (create_signature_op key rng2 params2 provider) \<and>
   snd (create_signature_op key rng1 params1 provider) = rng1"
  by (simp add: create_signature_op_def)


section \<open>Theorems: construction from raw bytes and serialization\<close>

lemma byte_join:
  fixes w :: "64 word"
  shows "push_bit 8 (drop_bit (k + 8) w) OR ucast (ucast (drop_bit k w) :: 8 word) = drop_bit k w"
proof (rule bit_eqI)
  fix n
  assume "possible_bit TYPE(64 word) n"
  then have n64: "n < 64" by simp
  show "bit (push_bit 8 (drop_bit (k + 8) w) OR ucast (ucast (drop_bit k w) :: 8 word)) n = bit (drop_bit k w) n"
  proof (cases "n < 8")
    case True
    then show ?thesis by (simp add: bit_simps)
  next
    case False
    then have "k + 8 + (n - 8) = k + n" by simp
    with False n64 show ?thesis by (simp add: bit_simps add.commute)
  qed
qed

lemma decode_unused_leaf_bytes:
  "decode_unused_leaf (map (\<lambda>i. ucast (drop_bit (8 * i) w)) [7, 6, 5, 4, 3, 2, 1, 0]) = w"
proof -
  have z: "drop_bit 64 w = 0" by (simp add: drop_bit_eq_zero_iff_not_bit_last) 
  have "push_bit 8 (0::64 word) OR ucast (ucast (drop_bit 56 w) :: 8 word) = drop_bit 56 w"
    using byte_join [of 56 w] z by simp
  then show ?thesis
    using byte_join [of 48 w] byte_join [of 40 w] byte_join [of 32 w] byte_join [of 24 w]
      byte_join [of 16 w] byte_join [of 8 w] byte_join [of 0 w]
    by (simp add: decode_unused_leaf_def)
qed

lemma pow2_less_64: "k < 64 \<Longrightarrow> (2::nat) ^ k < 2 ^ 64"
  by (simp only: power_strict_increasing_iff)

lemma unat_one_shifted: "k < 64 \<Longrightarrow> unat (push_bit k 1 :: 64 word) = 2 ^ k"
proof -
  assume k: "k < 64"
  have "(push_bit k 1 :: 64 word) = word_of_nat (2 ^ k)" by (simp add: push_bit_of_1)
  then have "unat (push_bit k 1 :: 64 word) = 2 ^ k mod 2 ^ 64"
    by (simp only: unat_of_nat) simp
  with pow2_less_64 [OF k] show ?thesis by simp
qed

lemma leaf_fits_size_t:
  assumes "1 \<le> h" "(h + 7) div 8 \<le> sizeof_size_t plat" "x < 2 ^ (h - 1)"
  shows "x mod size_t_max plat = x"
proof -
  have "h - 1 \<le> 8 * sizeof_size_t plat" using assms(2) by arith
  then have "(2::nat) ^ (h - 1) \<le> 2 ^ (8 * sizeof_size_t plat)"
    by (intro power_increasing) simp_all
  with assms(3) have "x < 2 ^ (8 * sizeof_size_t plat)"
    by (rule less_le_trans)
  then show ?thesis by (simp add: size_t_max_def)
qed

text \<open>
  C2. For a valid private key, over a public key that its class reads back from its raw
  form, constructing a key from \<open>raw_private_key\<close> gives the key itself: the public
  fields, the PRF seed, the private seed and the unused leaf index are the original's.
\<close>

theorem raw_private_key_round_trip:
  assumes codec: "public_codec_ok pko (public_key key)"
    and valid: "valid_private_key plat key"
  shows "XMSS_PrivateKey_from_raw plat pko (raw_private_key pko key) = Inr key"
proof -
  define pub where "pub = public_key key"
  define h where "h = tree_height (m_xmss_params pub)"
  define n where "n = element_size (m_xmss_params pub)"
  define idx where "idx = (word_of_nat (unused_leaf_index key) :: 64 word)"
  define field where "field = map (\<lambda>i. ucast (drop_bit (8 * i) idx) :: 8 word) [7, 6, 5, 4, 3, 2, 1, 0]"
  from valid have h: "1 \<le> h" "h \<le> 64" "(h + 7) div 8 \<le> sizeof_size_t plat"
    and leaf: "unused_leaf_index key < 2 ^ (h - 1)"
    and lens: "length (m_prf key) = n" "length (private_seed key) = n"
      "wots_element_size (m_wots_params pub) = n"
    by (simp_all add: valid_private_key_def Let_def pub_def h_def n_def)
  have raw: "raw_private_key pko key = raw_public_key pko pub @ field @ m_prf key @ private_seed key"
    by (simp add: raw_private_key_def pub_def field_def idx_def)
  have parse: "XMSS_PublicKey_from_raw pko (raw_private_key pko key) = Inr pub"
    using codec by (simp add: raw public_codec_ok_def pub_def)
  have plen: "length (raw_public_key pko pub) = XMSS_PublicKey_size pko pub"
    using codec by (simp add: public_codec_ok_def pub_def)
  have flen: "length field = 8" by (simp add: field_def)
  have len: "length (raw_private_key pko key) = XMSS_PrivateKey_size pko pub"
    by (simp add: raw plen flen lens XMSS_PrivateKey_size_def n_def)
  have fld: "leaf_index_field pko pub (raw_private_key pko key) = field"
    by (simp add: leaf_index_field_def raw plen [symmetric] flen)
  have dec: "decode_unused_leaf field = idx"
    unfolding field_def by (rule decode_unused_leaf_bytes)
  have "(2::nat) ^ (h - 1) < 2 ^ 64" using h by (intro pow2_less_64) simp
  with leaf have small: "unused_leaf_index key < 2 ^ 64" by simp
  then have un: "unat idx = unused_leaf_index key"
    by (simp add: idx_def unat_of_nat)
  have ub: "unat (push_bit (h - 1) 1 :: 64 word) = 2 ^ (h - 1)"
    using h by (intro unat_one_shifted) simp
  have bound: "\<not> (push_bit (h - 1) 1 \<le> idx)"
    unfolding word_le_nat_alt ub un using leaf by simp
  have cast: "unat idx mod size_t_max plat = unused_leaf_index key"
    using leaf_fits_size_t [OF h(1) h(3) leaf] by (simp add: un)
  have prf_eq: "take n (drop (XMSS_PublicKey_size pko pub + 8) (raw_private_key pko key)) = m_prf key"
    by (simp add: raw plen [symmetric] flen lens)
  have seed: "take n (drop (XMSS_PublicKey_size pko pub + 8 + n) (raw_private_key pko key)) = private_seed key"
    by (simp add: raw plen [symmetric] flen lens)
  show ?thesis
    using h(1,2,3) bound
    by (simp add: XMSS_PrivateKey_from_raw_def parse Let_def len fld dec cast prf_eq seed lens
        set_unused_leaf_index_def h_def [symmetric] n_def [symmetric] pub_def [symmetric])
qed

theorem raw_private_key_round_trip_witness:
  "XMSS_PrivateKey_from_raw lp64 toy_public_ops (raw_private_key toy_public_ops toy_private_key) =
     Inr toy_private_key \<and>
   raw_private_key toy_public_ops toy_private_key = [2, 1, 7, 9, 0, 0, 0, 0, 0, 0, 0, 1, 3, 5]"
proof -
  have c: "public_codec_ok toy_public_ops (public_key toy_private_key)"
    by (simp add: public_codec_ok_def toy_public_ops_def toy_from_raw_def toy_private_key_def)
  have v: "valid_private_key lp64 toy_private_key"
    by (simp add: valid_private_key_def toy_private_key_def lp64_def)
  have "raw_private_key toy_public_ops toy_private_key = [2, 1, 7, 9, 0, 0, 0, 0, 0, 0, 0, 1, 3, 5]"
    by (simp add: raw_private_key_def toy_public_ops_def toy_private_key_def)
  with raw_private_key_round_trip [OF c v] show ?thesis
    by simp
qed

lemma from_raw_after_checks:
  assumes parse: "XMSS_PublicKey_from_raw pko raw_key = Inr pub"
    and plat: "(tree_height (m_xmss_params pub) + 7) div 8 \<le> sizeof_size_t plat"
    and len: "length raw_key = XMSS_PrivateKey_size pko pub"
    and h: "1 \<le> tree_height (m_xmss_params pub)" "tree_height (m_xmss_params pub) \<le> 64"
  shows "XMSS_PrivateKey_from_raw plat pko raw_key =
     (let unused_leaf = decode_unused_leaf (leaf_index_field pko pub raw_key);
          n = element_size (m_xmss_params pub);
          wn = wots_element_size (m_wots_params pub);
          pub_size = XMSS_PublicKey_size pko pub
      in if 2 ^ (tree_height (m_xmss_params pub) - 1) \<le> unat unused_leaf
         then Inl (Integrity_Failure ''XMSS private key leaf index out of bounds.'')
         else if n < wn then Inl Undefined_Behaviour
         else Inr \<lparr> public_key = pub,
                    m_prf = take n (drop (pub_size + 8) raw_key),
                    private_seed = take wn (drop (pub_size + 8 + n) raw_key),
                    unused_leaf_index = unat unused_leaf mod size_t_max plat \<rparr>)"
proof -
  have ub: "unat (push_bit (tree_height (m_xmss_params pub) - 1) 1 :: 64 word) =
      2 ^ (tree_height (m_xmss_params pub) - 1)"
    using h by (intro unat_one_shifted) simp
  have "XMSS_PrivateKey_from_raw plat pko raw_key =
     (let unused_leaf = decode_unused_leaf (leaf_index_field pko pub raw_key);
          n = element_size (m_xmss_params pub);
          wn = wots_element_size (m_wots_params pub);
          pub_size = XMSS_PublicKey_size pko pub
      in if push_bit (tree_height (m_xmss_params pub) - 1) 1 \<le> unused_leaf
         then Inl (Integrity_Failure ''XMSS private key leaf index out of bounds.'')
         else if n < wn then Inl Undefined_Behaviour
         else Inr \<lparr> public_key = pub,
                    m_prf = take n (drop (pub_size + 8) raw_key),
                    private_seed = take wn (drop (pub_size + 8 + n) raw_key),
                    unused_leaf_index = unat unused_leaf mod size_t_max plat \<rparr>)"
    using plat len h
    by (simp add: XMSS_PrivateKey_from_raw_def parse Let_def set_unused_leaf_index_def
        del: push_bit_of_1)
  then show ?thesis
    unfolding word_le_nat_alt ub .
qed

lemma toy_parse:
  "XMSS_PublicKey_from_raw toy_public_ops (toy_raw_key leaf @ rest) = Inr (public_key toy_private_key)"
  by (simp add: toy_public_ops_def toy_from_raw_def toy_raw_key_def toy_private_key_def)

lemma toy_field:
  "unat (decode_unused_leaf
     (leaf_index_field toy_public_ops (public_key toy_private_key) (toy_raw_key 1))) = 1"
  "unat (decode_unused_leaf
     (leaf_index_field toy_public_ops (public_key toy_private_key) (toy_raw_key 2))) = 2"
  by (simp_all add: leaf_index_field_def toy_public_ops_def toy_private_key_def toy_raw_key_def
      decode_unused_leaf_def)

text \<open>
  C3. For a buffer of the exact size whose public part is read as a key of tree height
  \<open>h\<close> (from 1 to 64, on a platform whose \<open>size_t\<close> passes the assertion):
  a decoded leaf index of at least \<open>2^(h-1)\<close> makes the constructor throw the
  out-of-bounds \<open>Integrity_Failure\<close>; a decoded index below \<open>2^(h-1)\<close>, and so the
  index \<open>2^(h-1) - 1\<close>, gives a key with that unused leaf index.
\<close>

theorem leaf_index_bound_enforced:
  assumes parse: "XMSS_PublicKey_from_raw pko raw_key = Inr pub"
    and h: "h = tree_height (m_xmss_params pub)" "1 \<le> h" "h \<le> 64"
    and plat: "(h + 7) div 8 \<le> sizeof_size_t plat"
    and len: "length raw_key = XMSS_PrivateKey_size pko pub"
    and wots: "wots_element_size (m_wots_params pub) \<le> element_size (m_xmss_params pub)"
  shows
    "(2 ^ (h - 1) \<le> unat (decode_unused_leaf (leaf_index_field pko pub raw_key)) \<longrightarrow>
        XMSS_PrivateKey_from_raw plat pko raw_key =
          Inl (Integrity_Failure ''XMSS private key leaf index out of bounds.'')) \<and>
     (unat (decode_unused_leaf (leaf_index_field pko pub raw_key)) < 2 ^ (h - 1) \<longrightarrow>
        (\<exists>key. XMSS_PrivateKey_from_raw plat pko raw_key = Inr key \<and> public_key key = pub \<and>
           unused_leaf_index key = unat (decode_unused_leaf (leaf_index_field pko pub raw_key)))) \<and>
     (unat (decode_unused_leaf (leaf_index_field pko pub raw_key)) = 2 ^ (h - 1) - 1 \<longrightarrow>
        (\<exists>key. XMSS_PrivateKey_from_raw plat pko raw_key = Inr key \<and>
           unused_leaf_index key = 2 ^ (h - 1) - 1))"
proof -
  note eq = from_raw_after_checks [OF parse plat [unfolded h(1)] len h(2,3) [unfolded h(1)]]
  have fits: "x mod size_t_max plat = x" if "x < 2 ^ (h - 1)" for x
    using leaf_fits_size_t [OF h(2) plat that] .
  have a: "2 ^ (h - 1) \<le> unat (decode_unused_leaf (leaf_index_field pko pub raw_key)) \<longrightarrow>
        XMSS_PrivateKey_from_raw plat pko raw_key =
          Inl (Integrity_Failure ''XMSS private key leaf index out of bounds.'')"
    by (simp add: eq Let_def h(1))
  have b: "unat (decode_unused_leaf (leaf_index_field pko pub raw_key)) < 2 ^ (h - 1) \<longrightarrow>
        (\<exists>key. XMSS_PrivateKey_from_raw plat pko raw_key = Inr key \<and> public_key key = pub \<and>
           unused_leaf_index key = unat (decode_unused_leaf (leaf_index_field pko pub raw_key)))"
    using wots fits by (simp add: eq Let_def h(1) [symmetric] not_le [symmetric])
  have "(0::nat) < 2 ^ (h - 1)" by simp
  then have "(2::nat) ^ (h - 1) - 1 < 2 ^ (h - 1)" by arith
  with b have c: "unat (decode_unused_leaf (leaf_index_field pko pub raw_key)) = 2 ^ (h - 1) - 1 \<longrightarrow>
        (\<exists>key. XMSS_PrivateKey_from_raw plat pko raw_key = Inr key \<and>
           unused_leaf_index key = 2 ^ (h - 1) - 1)"
    by auto
  from a b c show ?thesis by blast
qed

theorem leaf_index_bound_enforced_witness:
  "XMSS_PrivateKey_from_raw lp64 toy_public_ops (toy_raw_key 2) =
     Inl (Integrity_Failure ''XMSS private key leaf index out of bounds.'') \<and>
   (\<exists>key. XMSS_PrivateKey_from_raw lp64 toy_public_ops (toy_raw_key 1) = Inr key \<and>
      unused_leaf_index key = 1)"
proof -
  have p: "XMSS_PublicKey_from_raw toy_public_ops (toy_raw_key leaf) = Inr (public_key toy_private_key)"
    for leaf using toy_parse [of leaf "[]"] by simp
  have h: "(2::nat) = tree_height (m_xmss_params (public_key toy_private_key))" "1 \<le> (2::nat)"
    "(2::nat) \<le> 64"
    by (simp_all add: toy_private_key_def)
  have s: "((2::nat) + 7) div 8 \<le> sizeof_size_t lp64"
    by (simp add: lp64_def)
  have l: "length (toy_raw_key leaf) = XMSS_PrivateKey_size toy_public_ops (public_key toy_private_key)"
    for leaf
    by (simp add: toy_raw_key_def XMSS_PrivateKey_size_def toy_public_ops_def toy_private_key_def)
  have w: "wots_element_size (m_wots_params (public_key toy_private_key))
      \<le> element_size (m_xmss_params (public_key toy_private_key))"
    by (simp add: toy_private_key_def)
  note t2 = leaf_index_bound_enforced [OF p h s l w, of 2]
  note t1 = leaf_index_bound_enforced [OF p h s l w, of 1]
  have "XMSS_PrivateKey_from_raw lp64 toy_public_ops (toy_raw_key 2) =
     Inl (Integrity_Failure ''XMSS private key leaf index out of bounds.'')"
    using conjunct1 [OF t2] by (simp add: toy_field)
  moreover have "\<exists>key. XMSS_PrivateKey_from_raw lp64 toy_public_ops (toy_raw_key 1) = Inr key \<and>
      unused_leaf_index key = 1"
    using conjunct2 [OF conjunct2 [OF t1]] by (simp add: toy_field)
  ultimately show ?thesis by simp
qed

text \<open>
  C4. For a buffer whose public part is read as a key and whose length is not
  \<open>public key size + 8 + 2 * element size\<close>, the constructor returns no key; where the
  \<open>size_t\<close> assertion passes it throws the size \<open>Integrity_Failure\<close>, whatever the
  index field holds: the length is checked before the leaf index is decoded.
\<close>

theorem size_check_enforced:
  assumes parse: "XMSS_PublicKey_from_raw pko raw_key = Inr pub"
    and len: "length raw_key \<noteq> XMSS_PrivateKey_size pko pub"
  shows
    "(\<exists>e. XMSS_PrivateKey_from_raw plat pko raw_key = Inl e) \<and>
     ((tree_height (m_xmss_params pub) + 7) div 8 \<le> sizeof_size_t plat \<longrightarrow>
        XMSS_PrivateKey_from_raw plat pko raw_key =
          Inl (Integrity_Failure ''Invalid XMSS private key size detected.''))"
  using len by (simp add: XMSS_PrivateKey_from_raw_def parse Let_def)

theorem size_check_enforced_witness:
  "XMSS_PrivateKey_from_raw lp64 toy_public_ops (butlast (toy_raw_key 255)) =
     Inl (Integrity_Failure ''Invalid XMSS private key size detected.'') \<and>
   XMSS_PrivateKey_from_raw lp64 toy_public_ops (toy_raw_key 1 @ [0]) =
     Inl (Integrity_Failure ''Invalid XMSS private key size detected.'')"
proof -
  have p1: "XMSS_PublicKey_from_raw toy_public_ops (butlast (toy_raw_key 255)) =
      Inr (public_key toy_private_key)"
    by (simp add: toy_public_ops_def toy_from_raw_def toy_raw_key_def toy_private_key_def)
  have l1: "length (butlast (toy_raw_key 255)) \<noteq>
      XMSS_PrivateKey_size toy_public_ops (public_key toy_private_key)"
    by (simp add: toy_raw_key_def XMSS_PrivateKey_size_def toy_public_ops_def toy_private_key_def)
  have l2: "length (toy_raw_key 1 @ [0]) \<noteq>
      XMSS_PrivateKey_size toy_public_ops (public_key toy_private_key)"
    by (simp add: toy_raw_key_def XMSS_PrivateKey_size_def toy_public_ops_def toy_private_key_def)
  have s: "(tree_height (m_xmss_params (public_key toy_private_key)) + 7) div 8 \<le> sizeof_size_t lp64"
    by (simp add: lp64_def toy_private_key_def)
  from conjunct2 [OF size_check_enforced [OF p1 l1, of lp64]] s
    conjunct2 [OF size_check_enforced [OF toy_parse l2, of lp64]]
  show ?thesis by blast
qed

section \<open>Theorems: the sequential tree hash\<close>

lemma stack_rel_length: "stack_rel Qn nl ns L S \<Longrightarrow> L = length S"
  by (induction S arbitrary: L) auto

lemma stack_rel_frame:
  "L \<le> k \<Longrightarrow> L \<le> k' \<Longrightarrow> stack_rel Qn (nl[k := v]) (ns[k' := w]) L S = stack_rel Qn nl ns L S"
  by (induction S arbitrary: L) auto

lemma contiguous_head: "contiguous ((t, a) # S) = contiguous ((t', a) # S)"
  by (cases S) auto

lemma combine_sim:
  assumes mc: "merge_closed ops seed Qn Qa"
  shows "stack_rel Qn nl ns L S \<Longrightarrow> L < length nl \<Longrightarrow> length ns = length nl \<Longrightarrow>
    nl ! L = t \<Longrightarrow> Qn t a' (ns ! L) \<Longrightarrow> Qa t a' ad \<Longrightarrow> contiguous ((t, a') # S) \<Longrightarrow>
    t + L < 256 \<Longrightarrow>
    \<exists>st'. combine ops seed \<lparr> nodes = ns, node_levels = nl, level = L, adrs = ad \<rparr> = Inr st' \<and>
      length (merged ((t, a') # S)) = Suc (level st') \<and>
      stack_rel Qn (node_levels st') (nodes st') (Suc (level st')) (merged ((t, a') # S)) \<and>
      Qa (fst (hd (merged ((t, a') # S)))) (snd (hd (merged ((t, a') # S)))) (adrs st') \<and>
      contiguous (merged ((t, a') # S)) \<and>
      length (nodes st') = length ns \<and> length (node_levels st') = length nl \<and> level st' \<le> L"
proof (induction S arbitrary: t a' nl ns L ad)
  case Nil
  then have "L = 0" by simp
  with Nil show ?case
    by (simp add: combine.simps)
next
  case (Cons p S)
  obtain t0 a0 where p: "p = (t0, a0)" by (cases p)
  from Cons.prems(1) p have L: "0 < L" and l0: "nl ! (L - 1) = t0" and q0: "Qn t0 a0 (ns ! (L - 1))"
    and rel: "stack_rel Qn nl ns (L - 1) S"
    by simp_all
  from stack_rel_length [OF Cons.prems(1)] have Ln: "Suc (length S) = L"
    by simp
  show ?case
  proof (cases "t = t0")
    case False
    with Cons.prems p L l0 Ln show ?thesis
      by (simp add: combine.simps)
  next
    case True
    from Cons.prems(7) p True have a': "a' = a0 + 2 ^ t0" and cont: "contiguous ((t0, a0) # S)"
      by simp_all
    define a1 where "a1 = set_tree_index (drop_bit 1 (get_tree_index ad - 1)) ad"
    define r where "r = randomize_tree_hash ops (ns ! (L - 1)) (ns ! L) a1 seed"
    define ns' where "ns' = ns[L - 1 := fst r]"
    define nl' where "nl' = nl[L - 1 := Suc t0]"
    define ad' where "ad' = set_tree_height (get_tree_height (snd r) + 1) (snd r)"
    from mc q0 Cons.prems(5,6) True a'
    have closed: "Qn (Suc t0) a0 (fst r)" "Qa (Suc t0) a0 ad'"
      unfolding merge_closed_def r_def a1_def ad'_def Let_def by blast+
    from Cons.prems(8) True L have small: "Suc t0 mod 256 = Suc t0" by simp
    have unfold: "combine ops seed \<lparr> nodes = ns, node_levels = nl, level = L, adrs = ad \<rparr> =
        combine ops seed \<lparr> nodes = ns', node_levels = nl', level = L - 1, adrs = ad' \<rparr>"
      using Cons.prems(2,3,4) L l0 True small
      by (subst combine.simps) (simp add: merge_top_def Let_def ns'_def nl'_def ad'_def r_def a1_def)
    have len: "L - 1 < length nl'" "length ns' = length nl'"
      using Cons.prems(2,3) by (simp_all add: ns'_def nl'_def)
    have rel': "stack_rel Qn nl' ns' (L - 1) S"
      using rel by (simp add: ns'_def nl'_def stack_rel_frame)
    have top: "nl' ! (L - 1) = Suc t0" "Qn (Suc t0) a0 (ns' ! (L - 1))"
      using Cons.prems(2,3) closed by (simp_all add: ns'_def nl'_def)
    have cont': "contiguous ((Suc t0, a0) # S)"
      using cont contiguous_head by blast
    have bound: "Suc t0 + (L - 1) < 256"
      using Cons.prems(8) True L by simp
    from Cons.IH [OF rel' len top(1) top(2) closed(2) cont' bound]
    obtain st' where st': "combine ops seed \<lparr> nodes = ns', node_levels = nl', level = L - 1, adrs = ad' \<rparr> = Inr st'"
      "length (merged ((Suc t0, a0) # S)) = Suc (level st')"
      "stack_rel Qn (node_levels st') (nodes st') (Suc (level st')) (merged ((Suc t0, a0) # S))"
      "Qa (fst (hd (merged ((Suc t0, a0) # S)))) (snd (hd (merged ((Suc t0, a0) # S)))) (adrs st')"
      "contiguous (merged ((Suc t0, a0) # S))"
      "length (nodes st') = length ns'" "length (node_levels st') = length nl'" "level st' \<le> L - 1"
      by blast
    have m: "merged ((t, a') # p # S) = merged ((Suc t0, a0) # S)"
      using True p by simp
    show ?thesis
      using st' by (simp add: unfold m ns'_def nl'_def)
  qed
qed

lemma stack_inv_level: "stack_inv Qn Qa H st S \<Longrightarrow> level st = length S"
  by (auto simp add: stack_inv_def dest: stack_rel_length)

lemma step_sim:
  assumes mc: "merge_closed ops (m_public_seed (public_key this)) Qn Qa"
    and lc: "leaf_closed ops this Qn Qa"
    and inv: "stack_inv Qn Qa H st S"
    and cont: "contiguous ((0, i) # S)"
    and room: "length S \<le> H" and H: "H < 255"
  shows "\<exists>st'. subtree_step ops this i st = Inr st' \<and> stack_inv Qn Qa H st' (merged ((0, i) # S))"
proof -
  define r where "r = leaf_node ops this i (adrs st)"
  define ns where "ns = (nodes st)[level st := fst r]"
  define nl where "nl = (node_levels st)[level st := 0]"
  have L: "level st = length S" using inv by (rule stack_inv_level)
  from inv have lens: "length (nodes st) = Suc H" "length (node_levels st) = Suc H"
    and rel: "stack_rel Qn (node_levels st) (nodes st) (level st) S"
    by (simp_all add: stack_inv_def)
  have rel': "stack_rel Qn nl ns (level st) S"
    using rel by (simp add: ns_def nl_def stack_rel_frame)
  have b: "level st < length nl" "length ns = length nl"
    using lens room L by (simp_all add: ns_def nl_def)
  have top: "nl ! level st = 0" "Qn 0 i (ns ! level st)" "Qa 0 i (snd r)"
    using lc lens room L by (simp_all add: ns_def nl_def r_def leaf_closed_def)
  have small: "0 + level st < 256" using room H L by simp
  from combine_sim [OF mc rel' b top(1) top(2) top(3) cont small]
  obtain st2 where st2:
      "combine ops (m_public_seed (public_key this))
         \<lparr> nodes = ns, node_levels = nl, level = level st, adrs = snd r \<rparr> = Inr st2"
      "length (merged ((0, i) # S)) = Suc (level st2)"
      "stack_rel Qn (node_levels st2) (nodes st2) (Suc (level st2)) (merged ((0, i) # S))"
      "Qa (fst (hd (merged ((0, i) # S)))) (snd (hd (merged ((0, i) # S)))) (adrs st2)"
      "contiguous (merged ((0, i) # S))"
      "length (nodes st2) = length ns" "length (node_levels st2) = length nl"
      "level st2 \<le> level st"
    by blast
  have eq: "st\<lparr>nodes := ns, node_levels := nl, adrs := snd r\<rparr> =
      \<lparr> nodes = ns, node_levels = nl, level = level st, adrs = snd r \<rparr>"
    by simp
  have lv: "Suc (level st2) mod 256 = Suc (level st2)"
    using st2(8) room H L by simp
  have nb: "\<not> (length (nodes st) \<le> level st \<or> length (node_levels st) \<le> level st)"
    using lens room L by simp
  have "subtree_step ops this i st =
      (case combine ops (m_public_seed (public_key this))
              (st\<lparr>nodes := ns, node_levels := nl, adrs := snd r\<rparr>) of
         Inl e \<Rightarrow> Inl e
       | Inr st2 \<Rightarrow> Inr (st2\<lparr>level := (level st2 + 1) mod 256\<rparr>))"
    unfolding subtree_step_def Let_def r_def ns_def nl_def using nb by simp
  then have step: "subtree_step ops this i st = Inr (st2\<lparr>level := Suc (level st2)\<rparr>)"
    using st2(1) lv by (simp add: eq)
  have "stack_inv Qn Qa H (st2\<lparr>level := Suc (level st2)\<rparr>) (merged ((0, i) # S))"
    using st2 lens by (simp add: stack_inv_def ns_def nl_def)
  with step show ?thesis by blast
qed

lemma subtree_loop_append:
  "subtree_loop ops this (xs @ ys) st =
     (case subtree_loop ops this xs st of Inl e \<Rightarrow> Inl e | Inr st' \<Rightarrow> subtree_loop ops this ys st')"
  by (induction xs arbitrary: st) (auto split: sum.splits)

lemma merged_no_match:
  "S = [] \<or> t < fst (hd S) \<Longrightarrow> merged ((t, a) # S) = (t, a) # S"
  by (cases S) auto

lemma block_sim:
  assumes mc: "merge_closed ops (m_public_seed (public_key this)) Qn Qa"
    and lc: "leaf_closed ops this Qn Qa"
    and H: "H < 255"
  shows "stack_inv Qn Qa H st S \<Longrightarrow>
    S = [] \<or> (t \<le> fst (hd S) \<and> a = snd (hd S) + 2 ^ fst (hd S)) \<Longrightarrow>
    length S + t \<le> H \<Longrightarrow>
    (\<exists>st'. subtree_loop ops this [a..<a + 2 ^ t] st = Inr st' \<and>
            stack_inv Qn Qa H st' (merged ((t, a) # S))) \<and>
    (\<forall>k<2 ^ t. \<exists>st'. subtree_loop ops this [a..<a + k] st = Inr st' \<and>
            level st' \<le> length S + t \<and>
            length (nodes st') = Suc H \<and> length (node_levels st') = Suc H)"
proof (induction t arbitrary: a st S)
  case 0
  have cont: "contiguous ((0, a) # S)"
    using "0.prems"(1,2) by (cases S) (auto simp add: stack_inv_def)
  from step_sim [OF mc lc "0.prems"(1) cont _ H] "0.prems"(3)
  obtain st' where "subtree_step ops this a st = Inr st'" "stack_inv Qn Qa H st' (merged ((0, a) # S))"
    by auto
  moreover have "level st = length S" "length (nodes st) = Suc H" "length (node_levels st) = Suc H"
    using "0.prems"(1) by (auto simp add: stack_inv_def dest: stack_rel_length)
  ultimately show ?case by simp
next
  case (Suc t)
  have pre1: "S = [] \<or> (t \<le> fst (hd S) \<and> a = snd (hd S) + 2 ^ fst (hd S))"
    using Suc.prems(2) by auto
  have room1: "length S + t \<le> H" using Suc.prems(3) by simp
  note ih1 = Suc.IH [OF Suc.prems(1) pre1 room1]
  have nomatch: "merged ((t, a) # S) = (t, a) # S"
    using Suc.prems(2) by (intro merged_no_match) auto
  from ih1 nomatch obtain st1 where st1: "subtree_loop ops this [a..<a + 2 ^ t] st = Inr st1"
    "stack_inv Qn Qa H st1 ((t, a) # S)"
    by auto
  have pre2: "(t, a) # S = [] \<or>
      (t \<le> fst (hd ((t, a) # S)) \<and> a + 2 ^ t = snd (hd ((t, a) # S)) + 2 ^ fst (hd ((t, a) # S)))"
    by simp
  have room2: "length ((t, a) # S) + t \<le> H" using Suc.prems(3) by simp
  note ih2 = Suc.IH [OF st1(2) pre2 room2]
  have split: "[a..<a + k] = [a..<a + 2 ^ t] @ [a + 2 ^ t..<a + 2 ^ t + (k - 2 ^ t)]" if "2 ^ t \<le> k" for k
  proof -
    have "a + k = a + 2 ^ t + (k - 2 ^ t)" using that by simp
    then show ?thesis
      by (metis le_add1 upt_add_eq_append)
  qed
  have full: "\<exists>st'. subtree_loop ops this [a..<a + 2 ^ Suc t] st = Inr st' \<and>
            stack_inv Qn Qa H st' (merged ((Suc t, a) # S))"
  proof -
    have "[a..<a + 2 ^ Suc t] = [a..<a + 2 ^ t] @ [a + 2 ^ t..<a + 2 ^ t + 2 ^ t]"
      using split [of "2 ^ Suc t"] by simp
    moreover have "merged ((t, a + 2 ^ t) # (t, a) # S) = merged ((Suc t, a) # S)"
      by simp
    ultimately show ?thesis
      using ih2 st1(1) by (simp add: subtree_loop_append)
  qed
  have part: "\<exists>st'. subtree_loop ops this [a..<a + k] st = Inr st' \<and>
            level st' \<le> length S + Suc t \<and>
            length (nodes st') = Suc H \<and> length (node_levels st') = Suc H" if k: "k < 2 ^ Suc t" for k
  proof (cases "k < 2 ^ t")
    case True
    with ih1 obtain st' where "subtree_loop ops this [a..<a + k] st = Inr st'"
      "level st' \<le> length S + t" "length (nodes st') = Suc H" "length (node_levels st') = Suc H"
      by blast
    then show ?thesis by auto
  next
    case False
    then have ge: "2 ^ t \<le> k" by simp
    with k have "k - 2 ^ t < 2 ^ t" by simp
    with ih2 obtain st' where
      "subtree_loop ops this [a + 2 ^ t..<a + 2 ^ t + (k - 2 ^ t)] st1 = Inr st'"
      "level st' \<le> length ((t, a) # S) + t" "length (nodes st') = Suc H"
      "length (node_levels st') = Suc H"
      by blast
    then show ?thesis
      using split [OF ge] st1(1) by (simp add: subtree_loop_append)
  qed
  from full part show ?case by blast
qed

lemma stack_inv_init: "stack_inv Qn Qa h (subtree_init this h adrs0) []"
  by (simp add: stack_inv_def subtree_init_def)

lemma last_idx_no_wrap:
  "start_idx + 2 ^ h < size_t_max plat \<Longrightarrow> (2 ^ h + start_idx) mod size_t_max plat = start_idx + 2 ^ h"
  by (simp add: add.commute)

lemma subtree_run:
  assumes mc: "merge_closed ops (m_public_seed (public_key this)) Qn Qa"
    and lc: "leaf_closed ops this Qn Qa"
    and h: "h < 31"
    and range: "start_idx + 2 ^ h < size_t_max plat"
  shows "\<exists>st. subtree_loop ops this [start_idx..<start_idx + 2 ^ h] (subtree_init this h adrs0) = Inr st \<and>
           level st = 1 \<and> Qn h start_idx (nodes st ! 0) \<and> Qa h start_idx (adrs st) \<and>
           tree_hash_subtree plat ops this start_idx h adrs0 = Inr (nodes st ! 0, adrs st)"
proof -
  have H: "h < 255" using h by simp
  from block_sim [OF mc lc H stack_inv_init, of h start_idx this adrs0]
  obtain st where st: "subtree_loop ops this [start_idx..<start_idx + 2 ^ h] (subtree_init this h adrs0) = Inr st"
    "stack_inv Qn Qa h st [(h, start_idx)]"
    by auto
  from st(2) have lv: "level st = 1" and q: "Qn h start_idx (nodes st ! 0)" "Qa h start_idx (adrs st)"
    and len: "length (nodes st) = Suc h"
    by (auto simp add: stack_inv_def dest: stack_rel_length)
  have "tree_hash_subtree plat ops this start_idx h adrs0 = Inr (nodes st ! 0, adrs st)"
    using h st(1) lv len by (simp add: tree_hash_subtree_def Let_def last_idx_no_wrap [OF range])
  with st(1) lv q show ?thesis by blast
qed

lemma trivially_closed:
  "merge_closed ops seed (\<lambda>_ _ _. True) (\<lambda>_ _ _. True)"
  "leaf_closed ops this (\<lambda>_ _ _. True) (\<lambda>_ _ _. True)"
  by (simp_all add: merge_closed_def leaf_closed_def)

lemma combine_exit:
  "combine ops seed st = Inr st' \<Longrightarrow>
     level st' \<le> level st \<and>
     (level st' = 0 \<or> node_levels st' ! level st' \<noteq> node_levels st' ! (level st' - 1))"
proof (induction ops seed st rule: combine.induct)
  case (1 ops seed st)
  show ?case
  proof (cases "0 < level st \<and> \<not> (length (node_levels st) \<le> level st \<or> length (nodes st) \<le> level st)
      \<and> node_levels st ! level st = node_levels st ! (level st - 1)")
    case True
    with "1.prems" have "combine ops seed (merge_top ops seed st) = Inr st'"
      by (subst (asm) combine.simps) simp
    with "1.IH" True have "level st' \<le> level (merge_top ops seed st) \<and>
      (level st' = 0 \<or> node_levels st' ! level st' \<noteq> node_levels st' ! (level st' - 1))"
      by simp
    then show ?thesis by (auto simp add: merge_top_def Let_def)
  next
    case False
    with "1.prems" have "st' = st \<and> (level st = 0 \<or> node_levels st ! level st \<noteq> node_levels st ! (level st - 1))"
      by (subst (asm) combine.simps) (auto split: if_splits)
    then show ?thesis by auto
  qed
qed

lemma combine_unfold:
  "level st < length (node_levels st) \<Longrightarrow> level st < length (nodes st) \<Longrightarrow>
   combine ops seed st =
     (if 0 < level st \<and> node_levels st ! level st = node_levels st ! (level st - 1)
      then combine ops seed (merge_top ops seed st) else Inr st)"
  by (subst combine.simps) simp

lemma subtree_height_0:
  assumes "start_idx + 1 < size_t_max plat"
  shows "tree_hash_subtree plat ops this start_idx 0 adrs0 = Inr (leaf_node ops this start_idx adrs0)"
proof -
  have "(Suc start_idx) mod size_t_max plat = Suc start_idx"
    using assms by simp
  then show ?thesis
    by (simp add: tree_hash_subtree_def subtree_init_def subtree_step_def combine.simps Let_def)
qed

lemma leaf_node_fst:
  assumes "address_discipline ops this"
  shows "fst (leaf_node ops this i ad) = fst (leaf_node ops this i ad')"
proof -
  let ?a1 = "set_ots_address (word_of_nat i) (set_type OTS_Hash_Address ad)"
  let ?b1 = "set_ots_address (word_of_nat i) (set_type OTS_Hash_Address ad')"
  have v1: "ots_view ?a1 = ots_view ?b1"
    by (simp add: ots_view_def set_ots_address_def set_type_def)
  from assms v1 have sk: "wots_at ops this ?a1 = wots_at ops this ?b1"
    unfolding address_discipline_def by blast
  from assms v1 have pk: "fst (generate_public_key ops this (wots_at ops this ?b1) ?a1) =
      fst (generate_public_key ops this (wots_at ops this ?b1) ?b1)"
    unfolding address_discipline_def by blast
  let ?a2 = "snd (generate_public_key ops this (wots_at ops this ?a1) ?a1)"
  let ?b2 = "snd (generate_public_key ops this (wots_at ops this ?b1) ?b1)"
  let ?a3 = "set_ltree_address (word_of_nat i) (set_type LTree_Address ?a2)"
  let ?b3 = "set_ltree_address (word_of_nat i) (set_type LTree_Address ?b2)"
  have v3: "ltree_view ?a3 = ltree_view ?b3"
    by (simp add: ltree_view_def set_ltree_address_def set_type_def)
  from assms v3 have "fst (create_l_tree ops pk ?a3 (m_public_seed (public_key this))) =
      fst (create_l_tree ops pk ?b3 (m_public_seed (public_key this)))" for pk
    unfolding address_discipline_def by blast
  then show ?thesis
    by (simp add: leaf_node_def Let_def split_beta sk pk)
qed

lemma leaf_node_view:
  "tree_view (snd (leaf_node ops this i ad)) = (Hash_Tree_Address, 0, word_of_nat i)"
  by (simp add: leaf_node_def Let_def split_beta tree_view_def set_tree_index_def
      set_tree_height_def set_type_def)

lemma discipline_leaf_closed:
  assumes "address_discipline ops this"
  shows "leaf_closed ops this (node_is ops this) adrs_is"
  using leaf_node_fst [OF assms]
  by (auto simp add: leaf_closed_def node_is_def adrs_is_def leaf_node_view)

lemma discipline_merge_closed:
  assumes "address_discipline ops this"
  shows "merge_closed ops (m_public_seed (public_key this)) (node_is ops this) adrs_is"
  unfolding merge_closed_def Let_def
proof (intro allI impI)
  fix t a x y ad
  assume h: "node_is ops this t a x \<and> node_is ops this t (a + 2 ^ t) y \<and> adrs_is t (a + 2 ^ t) ad"
  let ?seed = "m_public_seed (public_key this)"
  let ?a1 = "set_tree_index (drop_bit 1 (get_tree_index ad - 1)) ad"
  let ?c = "\<lparr> m_type = Hash_Tree_Address, m_tree_height = word_of_nat t,
              m_tree_index = subtree_index (Suc t) a, m_ots_address = 0, m_ltree_address = 0 \<rparr>"
  let ?r = "randomize_tree_hash ops x y ?a1 ?seed"
  from h have v: "tree_view ?a1 = tree_view ?c"
    by (simp add: adrs_is_def tree_view_def set_tree_index_def get_tree_index_def)
  with assms have "fst ?r = fst (randomize_tree_hash ops x y ?c ?seed)"
    unfolding address_discipline_def by blast
  with h have n: "node_is ops this (Suc t) a (fst ?r)"
    by (simp add: node_is_def)
  from assms have "tree_view (snd ?r) = tree_view ?a1"
    unfolding address_discipline_def by blast
  with v have "adrs_is (Suc t) a (set_tree_height (get_tree_height (snd ?r) + 1) (snd ?r))"
    by (simp add: adrs_is_def tree_view_def set_tree_height_def get_tree_height_def)
  with n show "node_is ops this (Suc t) a (fst ?r) \<and>
      adrs_is (Suc t) a (set_tree_height (get_tree_height (snd ?r) + 1) (snd ?r))"
    by simp
qed

lemma tree_hash_subtree_value:
  assumes d: "address_discipline ops this"
    and h: "h < 31"
    and range: "start_idx + 2 ^ h < size_t_max plat"
  shows "\<exists>ad. tree_hash_subtree plat ops this start_idx h adrs0 =
           Inr (subtree_node ops this h start_idx, ad) \<and>
         tree_view ad = (Hash_Tree_Address, word_of_nat h, subtree_index h start_idx)"
  using subtree_run [OF discipline_merge_closed [OF d] discipline_leaf_closed [OF d] h range,
      of adrs0]
  by (auto simp add: node_is_def adrs_is_def)

lemma pending_stack_0:
  "level st = 0 \<Longrightarrow> 0 < length (nodes st) \<Longrightarrow> 0 < length (node_levels st) \<Longrightarrow>
   pending_stack st = [(nodes st ! 0, node_levels st ! 0)]"
  by (cases "nodes st"; cases "node_levels st") (simp_all add: pending_stack_def)

lemma pending_stack_Suc:
  assumes "level st = Suc k" "Suc k < length (nodes st)" "Suc k < length (node_levels st)"
  shows "pending_stack st =
     (nodes st ! Suc k, node_levels st ! Suc k) # (nodes st ! k, node_levels st ! k) #
     rev (zip (take k (nodes st)) (take k (node_levels st)))"
proof -
  have a: "take (Suc (Suc k)) (nodes st) = take k (nodes st) @ [nodes st ! k, nodes st ! Suc k]"
    using assms by (simp add: take_Suc_conv_app_nth)
  have b: "take (Suc (Suc k)) (node_levels st) =
      take k (node_levels st) @ [node_levels st ! k, node_levels st ! Suc k]"
    using assms by (simp add: take_Suc_conv_app_nth)
  have l: "length (take k (nodes st)) = length (take k (node_levels st))"
    using assms by simp
  show ?thesis
    unfolding pending_stack_def assms(1) a b zip_append [OF l] by simp
qed

lemma pending_stack_merge_top:
  assumes "level st = Suc k" "Suc k < length (nodes st)" "Suc k < length (node_levels st)"
  shows "pending_stack (merge_top ops seed st) =
     (fst (randomize_tree_hash ops (nodes st ! k) (nodes st ! Suc k)
        (set_tree_index (drop_bit 1 (get_tree_index (adrs st) - 1)) (adrs st)) seed),
      (node_levels st ! k + 1) mod 256) #
     rev (zip (take k (nodes st)) (take k (node_levels st)))"
  using assms
  by (simp add: pending_stack_def merge_top_def Let_def take_Suc_conv_app_nth)

lemma combine_pops:
  "level st < length (nodes st) \<Longrightarrow> level st < length (node_levels st) \<Longrightarrow>
   \<exists>st'. combine ops seed st = Inr st' \<and>
     (pending_stack st', adrs st') = pop_and_combine ops seed (pending_stack st) (adrs st) \<and>
     length (nodes st') = length (nodes st) \<and> length (node_levels st') = length (node_levels st) \<and>
     level st' < length (nodes st')"
proof (induction ops seed st rule: combine.induct)
  case (1 ops seed st)
  show ?case
  proof (cases "level st")
    case 0
    with "1.prems" show ?thesis
      by (simp add: combine.simps pending_stack_0)
  next
    case (Suc k)
    note ps = pending_stack_Suc [OF Suc, of ] 
    have k1: "Suc k < length (nodes st)" and k2: "Suc k < length (node_levels st)"
      using "1.prems" Suc by simp_all
    show ?thesis
    proof (cases "node_levels st ! Suc k = node_levels st ! k")
      case True
      have c: "combine ops seed st = combine ops seed (merge_top ops seed st)"
        using True Suc k1 k2 by (subst combine.simps) simp
      have b: "level (merge_top ops seed st) < length (nodes (merge_top ops seed st))"
        "level (merge_top ops seed st) < length (node_levels (merge_top ops seed st))"
        using Suc k1 k2 by (simp_all add: merge_top_def Let_def)
      have g: "0 < level st" "\<not> (length (node_levels st) \<le> level st \<or> length (nodes st) \<le> level st)"
        "node_levels st ! level st = node_levels st ! (level st - 1)"
        using True Suc k1 k2 by simp_all
      from "1.IH" [OF g b]
      obtain st' where st': "combine ops seed (merge_top ops seed st) = Inr st'"
        "(pending_stack st', adrs st') =
           pop_and_combine ops seed (pending_stack (merge_top ops seed st)) (adrs (merge_top ops seed st))"
        "length (nodes st') = length (nodes (merge_top ops seed st))"
        "length (node_levels st') = length (node_levels (merge_top ops seed st))"
        "level st' < length (nodes st')"
        by blast
      have ad: "adrs (merge_top ops seed st) =
          (let r = randomize_tree_hash ops (nodes st ! k) (nodes st ! Suc k)
                  (set_tree_index (drop_bit 1 (get_tree_index (adrs st) - 1)) (adrs st)) seed
           in set_tree_height (get_tree_height (snd r) + 1) (snd r))"
        using Suc by (simp add: merge_top_def Let_def)
      have "pop_and_combine ops seed (pending_stack st) (adrs st) =
          pop_and_combine ops seed (pending_stack (merge_top ops seed st)) (adrs (merge_top ops seed st))"
        unfolding pending_stack_Suc [OF Suc k1 k2] pending_stack_merge_top [OF Suc k1 k2] ad
        using True by (simp add: Let_def)
      with st' c show ?thesis
        by (simp add: merge_top_def Let_def)
    next
      case False
      have c: "combine ops seed st = Inr st"
        using False Suc k1 k2 by (subst combine.simps) simp
      have "pop_and_combine ops seed (pending_stack st) (adrs st) = (pending_stack st, adrs st)"
        unfolding pending_stack_Suc [OF Suc k1 k2] using False by simp
      with c "1.prems" show ?thesis
        by simp
    qed
  qed
qed

lemma merge_top_effect:
  "nodes (merge_top ops seed st) =
     (nodes st)[level st - 1 :=
        fst (randomize_tree_hash ops (nodes st ! (level st - 1)) (nodes st ! level st)
               (set_tree_index (drop_bit 1 (get_tree_index (adrs st) - 1)) (adrs st)) seed)] \<and>
   node_levels (merge_top ops seed st) =
     (node_levels st)[level st - 1 := (node_levels st ! (level st - 1) + 1) mod 256] \<and>
   level (merge_top ops seed st) = level st - 1"
  by (simp add: merge_top_def Let_def)


text \<open>
  C7. In a run of \<open>tree_hash_subtree\<close> whose shift is defined and whose index range
  does not wrap around, at the start of each of the \<open>2^h\<close> iterations the stack level
  is at most the target height, so the stack with the new leaf holds at most
  \<open>target_node_height + 1\<close> entries and the indices \<open>level\<close> and \<open>level - 1\<close> lie
  inside the vectors of that size; the run ends with level 1 and returns \<open>nodes[0]\<close>
  without undefined behaviour. The inner loop only lowers the level and stops with the
  two top levels different or the level at 0. Its body takes the two top entries off
  the stack and puts their parent in the place of the lower one: the hash of the two
  nodes is written to \<open>nodes[level - 1]\<close>, \<open>node_levels[level - 1]\<close> is raised by
  one and the level is lowered by one; on the stack as a list the loop is
  \<open>pop_and_combine\<close>, which combines exactly as long as the two top levels are equal.
  With hash operations that keep the address discipline the value returned is the node
  of the subtree over the \<open>2^h\<close> leaves. For target height 0 the result is the leaf
  node itself, and no combination takes place.
\<close>

theorem tree_hash_subtree_stack_bounded:
  assumes h: "target_node_height < 31"
    and range: "start_idx + 2 ^ target_node_height < size_t_max plat"
  shows
    "(\<forall>k<2 ^ target_node_height. \<exists>st.
        subtree_loop ops this [start_idx..<start_idx + k]
          (subtree_init this target_node_height adrs0) = Inr st \<and>
        level st \<le> target_node_height \<and>
        length (nodes st) = target_node_height + 1 \<and>
        length (node_levels st) = target_node_height + 1) \<and>
     (\<exists>st.
        subtree_loop ops this [start_idx..<start_idx + 2 ^ target_node_height]
          (subtree_init this target_node_height adrs0) = Inr st \<and>
        level st = 1 \<and>
        tree_hash_subtree plat ops this start_idx target_node_height adrs0 =
          Inr (nodes st ! 0, adrs st)) \<and>
     (\<forall>seed st st'. combine ops seed st = Inr st' \<longrightarrow>
        level st' \<le> level st \<and>
        (level st' = 0 \<or> node_levels st' ! level st' \<noteq> node_levels st' ! (level st' - 1))) \<and>
     (\<forall>seed st. level st < length (node_levels st) \<and> level st < length (nodes st) \<longrightarrow>
        combine ops seed st =
          (if 0 < level st \<and> node_levels st ! level st = node_levels st ! (level st - 1)
           then combine ops seed (merge_top ops seed st) else Inr st) \<and>
        level (merge_top ops seed st) = level st - 1 \<and>
        nodes (merge_top ops seed st) =
          (nodes st)[level st - 1 :=
             fst (randomize_tree_hash ops (nodes st ! (level st - 1)) (nodes st ! level st)
                    (set_tree_index (drop_bit 1 (get_tree_index (adrs st) - 1)) (adrs st)) seed)] \<and>
        node_levels (merge_top ops seed st) =
          (node_levels st)[level st - 1 := (node_levels st ! (level st - 1) + 1) mod 256] \<and>
        (\<exists>st'. combine ops seed st = Inr st' \<and>
           (pending_stack st', adrs st') =
             pop_and_combine ops seed (pending_stack st) (adrs st))) \<and>
     (address_discipline ops this \<longrightarrow>
        (\<exists>ad. tree_hash_subtree plat ops this start_idx target_node_height adrs0 =
           Inr (subtree_node ops this target_node_height start_idx, ad))) \<and>
     (target_node_height = 0 \<longrightarrow>
        tree_hash_subtree plat ops this start_idx target_node_height adrs0 =
          Inr (leaf_node ops this start_idx adrs0))"
proof -
  have H: "target_node_height < 255" using h by simp
  have empty: "[] = [] \<or> (target_node_height \<le> fst (hd []) \<and>
      start_idx = snd (hd []) + 2 ^ fst (hd ([] :: (nat \<times> nat) list)))"
    by simp
  have room: "length ([] :: (nat \<times> nat) list) + target_node_height \<le> target_node_height"
    by simp
  note b = conjunct2 [OF block_sim [OF trivially_closed(1) trivially_closed(2) H stack_inv_init
        empty room]]
  have a: "\<forall>k<2 ^ target_node_height. \<exists>st.
        subtree_loop ops this [start_idx..<start_idx + k]
          (subtree_init this target_node_height adrs0) = Inr st \<and>
        level st \<le> target_node_height \<and>
        length (nodes st) = target_node_height + 1 \<and>
        length (node_levels st) = target_node_height + 1"
    using b by simp
  from subtree_run [OF trivially_closed(1) trivially_closed(2) h range]
  have c: "\<exists>st.
        subtree_loop ops this [start_idx..<start_idx + 2 ^ target_node_height]
          (subtree_init this target_node_height adrs0) = Inr st \<and>
        level st = 1 \<and>
        tree_hash_subtree plat ops this start_idx target_node_height adrs0 =
          Inr (nodes st ! 0, adrs st)"
    by blast
  have d: "\<forall>seed st st'. combine ops seed st = Inr st' \<longrightarrow>
        level st' \<le> level st \<and>
        (level st' = 0 \<or> node_levels st' ! level st' \<noteq> node_levels st' ! (level st' - 1))"
    using combine_exit by blast
  have e: "combine ops seed st =
          (if 0 < level st \<and> node_levels st ! level st = node_levels st ! (level st - 1)
           then combine ops seed (merge_top ops seed st) else Inr st) \<and>
        level (merge_top ops seed st) = level st - 1 \<and>
        nodes (merge_top ops seed st) =
          (nodes st)[level st - 1 :=
             fst (randomize_tree_hash ops (nodes st ! (level st - 1)) (nodes st ! level st)
                    (set_tree_index (drop_bit 1 (get_tree_index (adrs st) - 1)) (adrs st)) seed)] \<and>
        node_levels (merge_top ops seed st) =
          (node_levels st)[level st - 1 := (node_levels st ! (level st - 1) + 1) mod 256] \<and>
        (\<exists>st'. combine ops seed st = Inr st' \<and>
           (pending_stack st', adrs st') =
             pop_and_combine ops seed (pending_stack st) (adrs st))"
    if "level st < length (node_levels st) \<and> level st < length (nodes st)" for seed st
  proof -
    from that have l: "level st < length (nodes st)" "level st < length (node_levels st)"
      by simp_all
    from combine_pops [OF l, of ops seed]
    have "\<exists>st'. combine ops seed st = Inr st' \<and>
           (pending_stack st', adrs st') =
             pop_and_combine ops seed (pending_stack st) (adrs st)"
      by blast
    with combine_unfold [OF l(2) l(1), of ops seed] merge_top_effect [of ops seed st]
    show ?thesis by (simp only: simp_thms)
  qed
  have g: "address_discipline ops this \<longrightarrow>
        (\<exists>ad. tree_hash_subtree plat ops this start_idx target_node_height adrs0 =
           Inr (subtree_node ops this target_node_height start_idx, ad))"
    using tree_hash_subtree_value [OF _ h range, of ops this adrs0] by blast
  have f: "target_node_height = 0 \<longrightarrow>
        tree_hash_subtree plat ops this start_idx target_node_height adrs0 =
          Inr (leaf_node ops this start_idx adrs0)"
    using range subtree_height_0 [of start_idx plat ops this adrs0] by auto
  from e have e': "\<forall>seed st. level st < length (node_levels st) \<and> level st < length (nodes st) \<longrightarrow>
        combine ops seed st =
          (if 0 < level st \<and> node_levels st ! level st = node_levels st ! (level st - 1)
           then combine ops seed (merge_top ops seed st) else Inr st) \<and>
        level (merge_top ops seed st) = level st - 1 \<and>
        nodes (merge_top ops seed st) =
          (nodes st)[level st - 1 :=
             fst (randomize_tree_hash ops (nodes st ! (level st - 1)) (nodes st ! level st)
                    (set_tree_index (drop_bit 1 (get_tree_index (adrs st) - 1)) (adrs st)) seed)] \<and>
        node_levels (merge_top ops seed st) =
          (node_levels st)[level st - 1 := (node_levels st ! (level st - 1) + 1) mod 256] \<and>
        (\<exists>st'. combine ops seed st = Inr st' \<and>
           (pending_stack st', adrs st') =
             pop_and_combine ops seed (pending_stack st) (adrs st))"
    by (intro allI impI)
  show ?thesis
    by (intro conjI a c d e' g f)
qed

section \<open>Theorems: the parallel tree hash\<close>

lemma join_all_map:
  "\<forall>x\<in>set xs. \<exists>r. f x = Inr r \<Longrightarrow> join_all (map f xs) = Inr (map (\<lambda>x. projr (f x)) xs)"
  by (induction xs) auto

lemma level_round:
  assumes d: "address_discipline ops this"
    and inv: "level_inv ops this h start_idx (Suc m) s"
    and m: "Suc m \<le> h"
  shows "j \<le> 2 ^ m \<Longrightarrow>
    (let s' = fold (level_step ops (m_public_seed (public_key this)) h m (take (2 ^ Suc m) (fst s)))
                [0..<j] s
     in length (fst s') = length (fst s) \<and> length (snd s') = length (snd s) \<and>
        (\<forall>i<j. fst s' ! i = subtree_node ops this (h - m) (start_idx + i * 2 ^ (h - m)) \<and>
                m_type (snd s' ! i) = Hash_Tree_Address \<and>
                m_tree_index (snd s' ! i) = subtree_index (h - m) (start_idx + i * 2 ^ (h - m))) \<and>
        (\<forall>i\<ge>j. snd s' ! i = snd s ! i))"
proof (induction j)
  case 0
  then show ?case by simp
next
  case (Suc j)
  let ?seed = "m_public_seed (public_key this)"
  let ?ro = "take (2 ^ Suc m) (fst s)"
  define s' where "s' = fold (level_step ops ?seed h m ?ro) [0..<j] s"
  define t where "t = h - Suc m"
  have hm: "h - m = Suc t" using m by (simp add: t_def)
  from Suc have j: "j < 2 ^ m" by simp
  from Suc.IH j have ih: "length (fst s') = length (fst s)" "length (snd s') = length (snd s)"
    "\<forall>i<j. fst s' ! i = subtree_node ops this (h - m) (start_idx + i * 2 ^ (h - m)) \<and>
            m_type (snd s' ! i) = Hash_Tree_Address \<and>
            m_tree_index (snd s' ! i) = subtree_index (h - m) (start_idx + i * 2 ^ (h - m))"
    "\<forall>i\<ge>j. snd s' ! i = snd s ! i"
    by (simp_all add: s'_def Let_def)
  have idx: "2 * j < 2 ^ Suc m" "2 * j + 1 < 2 ^ Suc m" "j < 2 ^ Suc m"
    using j by simp_all
  from inv have len: "2 ^ Suc m \<le> length (fst s)" "2 ^ Suc m \<le> length (snd s)"
    and val: "\<And>i. i < 2 ^ Suc m \<Longrightarrow>
        fst s ! i = subtree_node ops this t (start_idx + i * 2 ^ t) \<and>
        m_type (snd s ! i) = Hash_Tree_Address \<and>
        m_tree_index (snd s ! i) = subtree_index t (start_idx + i * 2 ^ t)"
    by (simp_all add: level_inv_def t_def)
  define a where "a = set_tree_index (drop_bit 1 (get_tree_index (snd s' ! (2 * j + 1)) - 1))
                (set_tree_height (word_of_nat (h - (m + 1))) (snd s' ! j))"
  define r where "r = randomize_tree_hash ops (?ro ! (2 * j)) (?ro ! (2 * j + 1)) a ?seed"
  have step: "fold (level_step ops ?seed h m ?ro) [0..<Suc j] s =
      ((fst s')[j := fst r], (snd s')[j := snd r])"
    by (simp add: s'_def level_step_def Let_def r_def a_def)
  have pos: "start_idx + (2 * j + 1) * 2 ^ t = start_idx + j * 2 ^ Suc t + 2 ^ t"
    by (simp add: algebra_simps)
  have pos0: "start_idx + (2 * j) * 2 ^ t = start_idx + j * 2 ^ Suc t"
    by (simp add: algebra_simps)
  have v0: "fst s ! (2 * j) = subtree_node ops this t (start_idx + j * 2 ^ Suc t)"
    using val [OF idx(1)] unfolding pos0 by blast
  have v1: "fst s ! (2 * j + 1) = subtree_node ops this t (start_idx + j * 2 ^ Suc t + 2 ^ t)"
    "m_tree_index (snd s ! (2 * j + 1)) = subtree_index t (start_idx + j * 2 ^ Suc t + 2 ^ t)"
    using val [OF idx(2)] unfolding pos by blast+
  have ty: "m_type (snd s ! j) = Hash_Tree_Address"
    using val [OF idx(3)] by blast
  have ro: "?ro ! (2 * j) = subtree_node ops this t (start_idx + j * 2 ^ Suc t)"
    "?ro ! (2 * j + 1) = subtree_node ops this t (start_idx + j * 2 ^ Suc t + 2 ^ t)"
    unfolding nth_take [OF idx(1)] nth_take [OF idx(2)] by (rule v0, rule v1(1))
  have a1: "snd s' ! (2 * j + 1) = snd s ! (2 * j + 1)" "snd s' ! j = snd s ! j"
    using ih(4) by simp_all
  let ?c = "\<lparr> m_type = Hash_Tree_Address, m_tree_height = word_of_nat t,
              m_tree_index = subtree_index (Suc t) (start_idx + j * 2 ^ Suc t),
              m_ots_address = 0, m_ltree_address = 0 \<rparr>"
  have "tree_view a = (Hash_Tree_Address, word_of_nat (h - (m + 1)),
      drop_bit 1 (m_tree_index (snd s ! (2 * j + 1)) - 1))"
    unfolding a_def a1 using ty
    by (simp add: tree_view_def set_tree_index_def set_tree_height_def get_tree_index_def)
  also have "\<dots> = tree_view ?c"
    unfolding v1(2) by (simp add: tree_view_def t_def)
  finally have v: "tree_view a = tree_view ?c" .
  with d have "fst r = fst (randomize_tree_hash ops (?ro ! (2 * j)) (?ro ! (2 * j + 1)) ?c ?seed)"
    unfolding address_discipline_def r_def by blast
  then have node: "fst r = subtree_node ops this (Suc t) (start_idx + j * 2 ^ Suc t)"
    unfolding ro by simp
  from d have "tree_view (snd r) = tree_view a"
    unfolding address_discipline_def r_def by blast
  with v have ad: "m_type (snd r) = Hash_Tree_Address"
    "m_tree_index (snd r) = subtree_index (Suc t) (start_idx + j * 2 ^ Suc t)"
    by (simp_all add: tree_view_def)
  have jl: "j < length (fst s')" "j < length (snd s')"
    using ih(1,2) len idx(3) by simp_all
  show ?case
    unfolding Let_def step using ih jl node ad
    by (auto simp add: hm nth_list_update less_Suc_eq)
qed

lemma level_round_inv:
  assumes d: "address_discipline ops this"
    and inv: "level_inv ops this h start_idx (Suc m) s"
    and m: "Suc m \<le> h"
  shows "level_inv ops this h start_idx m
           (fold (level_step ops (m_public_seed (public_key this)) h m (take (2 ^ Suc m) (fst s)))
              [0..<2 ^ m] s)"
proof -
  from inv have len: "2 ^ Suc m \<le> length (fst s)" "2 ^ Suc m \<le> length (snd s)"
    by (simp_all add: level_inv_def)
  have "(2::nat) ^ m \<le> 2 ^ Suc m" by simp
  with len have len': "2 ^ m \<le> length (fst s)" "2 ^ m \<le> length (snd s)"
    by linarith+
  from level_round [OF d inv m, of "2 ^ m"] len' show ?thesis
    by (simp add: level_inv_def Let_def)
qed

lemma top_levels_value:
  assumes d: "address_discipline ops this"
  shows "level_inv ops this h start_idx lvl s \<Longrightarrow> 1 \<le> lvl \<Longrightarrow> lvl \<le> h \<Longrightarrow>
    \<exists>s'. top_levels ops (m_public_seed (public_key this)) h lvl s = Inr s' \<and>
          level_inv ops this h start_idx 1 s'"
proof (induction lvl arbitrary: s)
  case 0
  then show ?case by simp
next
  case (Suc m)
  show ?case
  proof (cases "m = 0")
    case True
    with Suc.prems show ?thesis
      by (simp add: top_levels.simps)
  next
    case False
    from Suc.prems(1) have len: "\<not> (length (fst s) < 2 ^ Suc m \<or> length (snd s) < 2 ^ Suc m)"
      by (simp add: level_inv_def)
    let ?s1 = "fold (level_step ops (m_public_seed (public_key this)) h m (take (2 ^ Suc m) (fst s)))
              [0..<2 ^ m] s"
    have unfold: "top_levels ops (m_public_seed (public_key this)) h (Suc m) s =
        top_levels ops (m_public_seed (public_key this)) h m ?s1"
      using False len by (subst top_levels.simps) simp
    from level_round_inv [OF d Suc.prems(1) Suc.prems(3)]
    have inv1: "level_inv ops this h start_idx m ?s1" .
    from Suc.IH [OF inv1] False Suc.prems(3) show ?thesis
      by (simp add: unfold)
  qed
qed

lemma pow2_split: "s \<le> h \<Longrightarrow> (2::nat) ^ h = 2 ^ s * 2 ^ (h - s)"
  by (simp add: power_add [symmetric])

lemma subtree_range:
  assumes "s \<le> h" "i < 2 ^ s"
  shows "i * 2 ^ (h - s) + 2 ^ (h - s) \<le> (2::nat) ^ h"
proof -
  have "Suc i \<le> 2 ^ s" using assms(2) by simp
  then have "Suc i * 2 ^ (h - s) \<le> 2 ^ s * 2 ^ (h - s)"
    by (rule mult_le_mono1)
  then show ?thesis
    by (simp add: pow2_split [OF assms(1)])
qed

lemma tree_hash_threads_value:
  assumes d: "address_discipline ops this"
    and h: "h < 31"
    and s: "1 \<le> s" "s \<le> h"
    and range: "start_idx + 2 ^ h < size_t_max plat"
  shows "tree_hash_threads plat ops this start_idx h adrs0 s =
           Inr (subtree_node ops this h start_idx, adrs0)"
proof -
  let ?M = "size_t_max plat"
  let ?seed = "m_public_seed (public_key this)"
  let ?f = "\<lambda>i. tree_hash_subtree plat ops this ((start_idx + i * 2 ^ (h - s)) mod ?M) (h - s) adrs0"
  have M: "2 ^ h < ?M" using range by simp
  have "(2::nat) ^ s \<le> 2 ^ h" using s(2) by (intro power_increasing) simp_all
  then have "2 ^ s < ?M" using M by (rule le_less_trans)
  then have sub: "2 ^ s mod ?M = 2 ^ s" by simp
  have last: "(2 ^ h + start_idx) mod ?M = start_idx + 2 ^ h"
    using range by (simp add: add.commute)
  have "(start_idx + 2 ^ h + ?M - start_idx) mod ?M = (2 ^ h + ?M) mod ?M"
    by simp
  also have "\<dots> = 2 ^ h" using M by simp
  finally have rng: "(start_idx + 2 ^ h + ?M - start_idx) mod ?M = 2 ^ h" .
  have offs: "(2::nat) ^ h div 2 ^ s = 2 ^ (h - s)" "(2::nat) ^ h mod 2 ^ s = 0"
    by (simp_all add: pow2_split [OF s(2)])
  have lvl: "s mod 256 = s" using s(2) h by simp
  have each: "\<exists>ad. ?f i = Inr (subtree_node ops this (h - s) (start_idx + i * 2 ^ (h - s)), ad) \<and>
      tree_view ad = (Hash_Tree_Address, word_of_nat (h - s),
        subtree_index (h - s) (start_idx + i * 2 ^ (h - s)))" if i: "i < 2 ^ s" for i
  proof -
    have b: "start_idx + i * 2 ^ (h - s) + 2 ^ (h - s) < ?M"
      using subtree_range [OF s(2) i] range by linarith
    then have m: "(start_idx + i * 2 ^ (h - s)) mod ?M = start_idx + i * 2 ^ (h - s)"
      by simp
    have hs: "h - s < 31" using h by simp
    show ?thesis
      unfolding m by (rule tree_hash_subtree_value [OF d hs b])
  qed
  then have "\<forall>i\<in>set [0..<2 ^ s]. \<exists>r. ?f i = Inr r"
    by (metis atLeastLessThan_iff set_upt)
  then have join: "join_all (map ?f [0..<2 ^ s]) = Inr (map (\<lambda>i. projr (?f i)) [0..<2 ^ s])"
    by (rule join_all_map)
  define results where "results = map (\<lambda>i. projr (?f i)) [0..<2 ^ s]"
  have res: "fst (results ! i) = subtree_node ops this (h - s) (start_idx + i * 2 ^ (h - s)) \<and>
      m_type (snd (results ! i)) = Hash_Tree_Address \<and>
      m_tree_index (snd (results ! i)) = subtree_index (h - s) (start_idx + i * 2 ^ (h - s))"
    if i: "i < 2 ^ s" for i
    using each [OF i] i by (auto simp add: results_def tree_view_def)
  have inv: "level_inv ops this h start_idx s (map fst results, map snd results)"
    using res by (simp add: level_inv_def results_def)
  from top_levels_value [OF d inv s]
  obtain s' where s': "top_levels ops ?seed h s (map fst results, map snd results) = Inr s'"
    "level_inv ops this h start_idx 1 s'"
    by blast
  define t where "t = h - 1"
  have ht: "h = Suc t" using s by (simp add: t_def)
  from s'(2) have len: "2 \<le> length (fst s')" "2 \<le> length (snd s')"
    and n0: "fst s' ! 0 = subtree_node ops this t start_idx"
    and n1: "fst s' ! 1 = subtree_node ops this t (start_idx + 2 ^ t)"
    and ty: "m_type (snd s' ! 0) = Hash_Tree_Address"
    and ix: "m_tree_index (snd s' ! 1) = subtree_index t (start_idx + 2 ^ t)"
    by (simp_all add: level_inv_def t_def)
  define a where "a = set_tree_index (drop_bit 1 (get_tree_index (snd s' ! 1) - 1))
                               (set_tree_height (word_of_nat (h - 1)) (snd s' ! 0))"
  let ?c = "\<lparr> m_type = Hash_Tree_Address, m_tree_height = word_of_nat t,
              m_tree_index = subtree_index (Suc t) start_idx,
              m_ots_address = 0, m_ltree_address = 0 \<rparr>"
  have "tree_view a = tree_view ?c"
    using ty ix
    by (simp add: a_def tree_view_def set_tree_index_def set_tree_height_def get_tree_index_def
        t_def)
  with d have "fst (randomize_tree_hash ops (fst s' ! 0) (fst s' ! 1) a ?seed) =
      fst (randomize_tree_hash ops (fst s' ! 0) (fst s' ! 1) ?c ?seed)"
    unfolding address_discipline_def by blast
  then have final: "fst (randomize_tree_hash ops (fst s' ! 0) (fst s' ! 1) a ?seed) =
      subtree_node ops this h start_idx"
    unfolding n0 n1 ht by simp
  have nl: "\<not> (length (fst s') < 2 \<or> length (snd s') < 2)"
    using len by simp
  have pos: "(0::nat) < 2 ^ s" by simp
  show ?thesis
    unfolding tree_hash_threads_def Let_def sub last rng offs lvl
    using pos nl final [unfolded a_def]
    by (simp add: join results_def [symmetric] s'(1))
qed

section \<open>Theorems: the Merkle node\<close>

lemma drop_bit_1_of_nat_32:
  assumes "x < 2 ^ 32"
  shows "drop_bit 1 (word_of_nat x :: 32 word) = word_of_nat (x div 2)"
proof -
  have x: "unat (word_of_nat x :: 32 word) = x"
    using assms by (simp add: unat_of_nat)
  have "unat (drop_bit 1 (word_of_nat x :: 32 word)) = drop_bit 1 (unat (word_of_nat x :: 32 word))"
    by (rule unat_drop_bit_eq)
  then have l: "unat (drop_bit 1 (word_of_nat x :: 32 word)) = x div 2"
    unfolding x by (simp add: drop_bit_eq_div)
  have "x div 2 < 2 ^ 32" using assms by simp
  then have r: "unat (word_of_nat (x div 2) :: 32 word) = x div 2"
    by (simp add: unat_of_nat)
  from l r show ?thesis
    by (simp only: word_unat_eq_iff)
qed

lemma subtree_index_closed:
  "a + 2 ^ t \<le> 2 ^ 32 \<Longrightarrow> subtree_index t a = word_of_nat (a div 2 ^ t)"
proof (induction t arbitrary: a)
  case 0
  then show ?case by simp
next
  case (Suc t)
  have "a + 2 ^ t + 2 ^ t \<le> 2 ^ 32" using Suc.prems by simp
  from Suc.IH [OF this] have "subtree_index t (a + 2 ^ t) = word_of_nat ((a + 2 ^ t) div 2 ^ t)" .
  also have "(a + 2 ^ t) div 2 ^ t = a div 2 ^ t + 1"
    by (simp add: div_add_self2)
  finally have step: "subtree_index t (a + 2 ^ t) - 1 = word_of_nat (a div 2 ^ t)"
    by simp
  have "a div 2 ^ t \<le> a" by (rule div_le_dividend)
  moreover have "a < 2 ^ 32"
  proof -
    have "(0::nat) < 2 ^ Suc t" by simp
    with Suc.prems show ?thesis by linarith
  qed
  ultimately have small: "a div 2 ^ t < 2 ^ 32" by linarith
  have "subtree_index (Suc t) a = drop_bit 1 (word_of_nat (a div 2 ^ t))"
    unfolding subtree_index.simps step ..
  also have "\<dots> = word_of_nat (a div 2 ^ t div 2)"
    using small by (rule drop_bit_1_of_nat_32)
  also have "a div 2 ^ t div 2 = a div 2 ^ Suc t"
    unfolding power_Suc2 by (rule div_mult2_eq [symmetric])
  finally show ?case .
qed

lemma merkle_leaf_eq:
  assumes d: "address_discipline ops this"
  shows "fst (leaf_node ops this i ad) = merkle_leaf ops this i"
proof -
  let ?a1 = "set_ots_address (word_of_nat i) (set_type OTS_Hash_Address ad)"
  let ?b1 = "\<lparr> m_type = OTS_Hash_Address, m_tree_height = 0, m_tree_index = 0,
                  m_ots_address = word_of_nat i, m_ltree_address = 0 \<rparr>"
  have v1: "ots_view ?a1 = ots_view ?b1"
    by (simp add: ots_view_def set_ots_address_def set_type_def)
  from d v1 have sk: "wots_at ops this ?a1 = wots_at ops this ?b1"
    unfolding address_discipline_def by blast
  from d v1 have pk: "fst (generate_public_key ops this (wots_at ops this ?b1) ?a1) =
      fst (generate_public_key ops this (wots_at ops this ?b1) ?b1)"
    unfolding address_discipline_def by blast
  let ?a2 = "snd (generate_public_key ops this (wots_at ops this ?a1) ?a1)"
  let ?a3 = "set_ltree_address (word_of_nat i) (set_type LTree_Address ?a2)"
  let ?b3 = "\<lparr> m_type = LTree_Address, m_tree_height = 0, m_tree_index = 0,
                    m_ots_address = 0, m_ltree_address = word_of_nat i \<rparr>"
  have v3: "ltree_view ?a3 = ltree_view ?b3"
    by (simp add: ltree_view_def set_ltree_address_def set_type_def)
  from d v3 have "fst (create_l_tree ops pk ?a3 (m_public_seed (public_key this))) =
      fst (create_l_tree ops pk ?b3 (m_public_seed (public_key this)))" for pk
    unfolding address_discipline_def by blast
  then show ?thesis
    by (simp add: leaf_node_def merkle_leaf_def Let_def split_beta sk pk)
qed

lemma subtree_node_merkle:
  assumes d: "address_discipline ops this"
  shows "a mod 2 ^ t = 0 \<Longrightarrow> a + 2 ^ t \<le> 2 ^ 32 \<Longrightarrow>
    subtree_node ops this t a = merkle_node ops this t (a div 2 ^ t)"
proof (induction t arbitrary: a)
  case 0
  then show ?case by (simp add: merkle_leaf_eq [OF d])
next
  case (Suc t)
  from Suc.prems(1) obtain q where q: "a = 2 ^ Suc t * q"
    by (auto simp add: mod_eq_0_iff_dvd)
  have a: "a = (2 * q) * 2 ^ t" using q by simp
  have al: "a mod 2 ^ t = 0" "(a + 2 ^ t) mod 2 ^ t = 0"
    by (simp_all add: a)
  have r: "a + 2 ^ t \<le> 2 ^ 32" "a + 2 ^ t + 2 ^ t \<le> 2 ^ 32"
    using Suc.prems(2) by simp_all
  have d0: "a div 2 ^ t = 2 * q" by (simp add: a)
  have d1: "(a + 2 ^ t) div 2 ^ t = 2 * q + 1" by (simp add: a div_add_self2)
  have dq: "a div 2 ^ Suc t = q" by (simp add: q)
  have l: "subtree_node ops this t a = merkle_node ops this t (2 * q)"
    using Suc.IH [OF al(1) r(1)] by (simp only: d0)
  have rr: "subtree_node ops this t (a + 2 ^ t) = merkle_node ops this t (2 * q + 1)"
    using Suc.IH [OF al(2) r(2)] by (simp only: d1)
  have ix: "subtree_index (Suc t) a = word_of_nat q"
    using subtree_index_closed [OF Suc.prems(2)] by (simp only: dq)
  show ?case
    unfolding dq subtree_node.simps merkle_node.simps l rr ix ..
qed

section \<open>Theorems: the contract of the tree hash\<close>

lemma toy_discipline: "address_discipline toy_ops this"
  by (simp add: address_discipline_def toy_ops_def ots_view_def ltree_view_def tree_view_def)

lemma ucast_32_8: "(ucast (word_of_nat i :: 32 word) :: 8 word) = word_of_nat i"
  by (simp add: unsigned_of_nat word_of_nat_eq_iff)

lemma toy_leaf:
  "leaf_node toy_ops toy_private_key i ad =
     ([0x4C, word_of_nat i, 0x50, 5, word_of_nat i, 9],
      ad\<lparr> m_type := Hash_Tree_Address, m_tree_height := 0, m_tree_index := word_of_nat i,
          m_ots_address := word_of_nat i, m_ltree_address := word_of_nat i \<rparr>)"
  by (simp add: leaf_node_def toy_ops_def toy_private_key_def Let_def set_type_def
      set_ots_address_def set_ltree_address_def set_tree_height_def set_tree_index_def
      ucast_32_8)

lemma toy_hash:
  "randomize_tree_hash toy_ops l r a seed =
     (0x48 # ucast (m_tree_height a) # ucast (m_tree_index a) # l @ r,
      a\<lparr>m_ots_address := 1, m_ltree_address := 2\<rparr>)"
  by (simp add: toy_ops_def)

lemma toy_seed: "m_public_seed (public_key toy_private_key) = [9]"
  "element_size (m_xmss_params (public_key toy_private_key)) = 1"
  by (simp_all add: toy_private_key_def)

lemma toy_seq2:
  "tree_hash_subtree lp64 toy_ops toy_private_key 4 2 fresh_address =
     Inr ([72, 1, 1, 72, 0, 2, 76, 4, 80, 5, 4, 9, 76, 5, 80, 5, 5, 9, 72, 0, 3,
           76, 6, 80, 5, 6, 9, 76, 7, 80, 5, 7, 9],
          \<lparr> m_type = Hash_Tree_Address, m_tree_height = 2, m_tree_index = 1,
            m_ots_address = 1, m_ltree_address = 2 \<rparr>)"
  by (simp add: tree_hash_subtree_def subtree_init_def subtree_step_def combine.simps
      merge_top_def toy_leaf toy_hash toy_seed Let_def lp64_def size_t_max_def fresh_address_def
      set_tree_index_def get_tree_index_def set_tree_height_def get_tree_height_def)

text \<open>
  C5. \<open>tree_hash\<close> on a start index that is not divisible by \<open>2^target_node_height\<close>
  fails its assertion; on a divisible start index the assertion passes and the result is
  the Merkle node of that height over the leaves from the start index on, the node of
  index \<open>start_idx / 2^target_node_height\<close>. This holds for leaf ranges below
  \<open>2^31\<close> on a platform whose \<open>size_t\<close> has at least 32 bits, sequentially and
  with any split level.
\<close>

theorem tree_hash_contract:
  assumes d: "address_discipline ops this"
    and range: "start_idx + 2 ^ target_node_height < 2 ^ 31"
    and plat: "4 \<le> sizeof_size_t plat"
  shows
    "(start_idx mod 2 ^ target_node_height \<noteq> 0 \<longrightarrow>
        tree_hash plat ops this start_idx target_node_height adrs0 =
          Inl (Assertion_Failure align_assert_msg)) \<and>
     (start_idx mod 2 ^ target_node_height = 0 \<longrightarrow>
        (\<exists>ad. tree_hash plat ops this start_idx target_node_height adrs0 =
           Inr (merkle_node ops this target_node_height (start_idx div 2 ^ target_node_height), ad)))"
proof -
  let ?h = target_node_height
  have "(2::nat) ^ ?h < 2 ^ 31" using range by simp
  then have h31: "?h < 31" by (simp only: power_strict_increasing_iff)
  have "(32::nat) \<le> 8 * sizeof_size_t plat" using plat by simp
  then have "(2::nat) ^ 32 \<le> size_t_max plat"
    unfolding size_t_max_def by (intro power_increasing) simp_all
  with range have r: "start_idx + 2 ^ ?h < size_t_max plat" by simp
  have r32: "start_idx + 2 ^ ?h \<le> 2 ^ 32" using range by simp
  have a: "start_idx mod 2 ^ ?h \<noteq> 0 \<longrightarrow>
        tree_hash plat ops this start_idx ?h adrs0 = Inl (Assertion_Failure align_assert_msg)"
    using h31 by (simp add: tree_hash_def)
  have b: "\<exists>ad. tree_hash plat ops this start_idx ?h adrs0 =
           Inr (merkle_node ops this ?h (start_idx div 2 ^ ?h), ad)"
    if al: "start_idx mod 2 ^ ?h = 0"
  proof -
    define s where "s = (if has_threads plat then min ?h (hardware_concurrency_log2 plat) else 0)"
    have s: "s \<le> ?h" by (simp add: s_def)
    have "\<exists>ad. tree_hash plat ops this start_idx ?h adrs0 =
        Inr (subtree_node ops this ?h start_idx, ad)"
    proof (cases "s = 0")
      case True
      from tree_hash_subtree_value [OF d h31 r, of adrs0] True h31 al show ?thesis
        by (auto simp add: tree_hash_def s_def [symmetric])
    next
      case False
      then have "1 \<le> s" by simp
      from tree_hash_threads_value [OF d h31 this s r, of adrs0] False h31 al
      show ?thesis
        by (simp add: tree_hash_def s_def [symmetric])
    qed
    then show ?thesis
      by (simp only: subtree_node_merkle [OF d al r32])
  qed
  from a b show ?thesis by blast
qed

lemma toy_merkle_leaf:
  "merkle_leaf toy_ops toy_private_key i = [0x4C, word_of_nat i, 0x50, 5, word_of_nat i, 9]"
  by (simp add: merkle_leaf_def toy_ops_def toy_private_key_def Let_def ucast_32_8)

lemma toy_merkle_Suc:
  "merkle_node toy_ops toy_private_key (Suc (Suc 0)) 1 =
     [72, 1, 1, 72, 0, 2, 76, 4, 80, 5, 4, 9, 76, 5, 80, 5, 5, 9, 72, 0, 3,
      76, 6, 80, 5, 6, 9, 76, 7, 80, 5, 7, 9]"
  by (simp add: toy_merkle_leaf toy_hash toy_seed)

lemma toy_merkle:
  "merkle_node toy_ops toy_private_key 2 1 =
     [72, 1, 1, 72, 0, 2, 76, 4, 80, 5, 4, 9, 76, 5, 80, 5, 5, 9, 72, 0, 3,
      76, 6, 80, 5, 6, 9, 76, 7, 80, 5, 7, 9]"
  using toy_merkle_Suc by (simp only: numeral_2_eq_2)

theorem tree_hash_contract_witness:
  "map_sum id fst (tree_hash lp64 toy_ops toy_private_key 4 2 fresh_address) =
     Inr [72, 1, 1, 72, 0, 2, 76, 4, 80, 5, 4, 9, 76, 5, 80, 5, 5, 9, 72, 0, 3,
          76, 6, 80, 5, 6, 9, 76, 7, 80, 5, 7, 9] \<and>
   tree_hash lp64 toy_ops toy_private_key 3 2 fresh_address =
     Inl (Assertion_Failure align_assert_msg)"
proof -
  have r4: "(4::nat) + 2 ^ 2 < 2 ^ 31" and r3: "(3::nat) + 2 ^ 2 < 2 ^ 31"
    and p: "4 \<le> sizeof_size_t lp64"
    by (simp_all add: lp64_def)
  have al: "(4::nat) mod 2 ^ 2 = 0" and nal: "(3::nat) mod 2 ^ 2 \<noteq> 0"
    by simp_all
  from conjunct2 [OF tree_hash_contract [OF toy_discipline r4 p, of toy_private_key fresh_address]] al
  obtain ad where "tree_hash lp64 toy_ops toy_private_key 4 2 fresh_address =
      Inr (merkle_node toy_ops toy_private_key 2 (4 div 2 ^ 2), ad)"
    by blast
  then have "map_sum id fst (tree_hash lp64 toy_ops toy_private_key 4 2 fresh_address) =
      Inr (merkle_node toy_ops toy_private_key 2 1)"
    by simp
  moreover from conjunct1 [OF tree_hash_contract [OF toy_discipline r3 p, of toy_private_key fresh_address]] nal
  have "tree_hash lp64 toy_ops toy_private_key 3 2 fresh_address =
     Inl (Assertion_Failure align_assert_msg)"
    by blast
  ultimately show ?thesis
    by (simp only: toy_merkle simp_thms)
qed

theorem tree_hash_subtree_stack_bounded_witness:
  "(\<exists>st. subtree_loop toy_ops toy_private_key [4..<4 + 3]
            (subtree_init toy_private_key 2 fresh_address) = Inr st \<and>
          level st \<le> 2 \<and> length (nodes st) = 2 + 1 \<and> length (node_levels st) = 2 + 1) \<and>
   (\<exists>st. subtree_loop toy_ops toy_private_key [4..<4 + 2 ^ 2]
            (subtree_init toy_private_key 2 fresh_address) = Inr st \<and>
          level st = 1 \<and>
          tree_hash_subtree lp64 toy_ops toy_private_key 4 2 fresh_address =
            Inr (nodes st ! 0, adrs st)) \<and>
   (\<exists>st'. combine toy_ops [9]
             \<lparr> nodes = [[1], [2], [3]], node_levels = [1, 0, 0], level = 2,
               adrs = fresh_address\<lparr>m_tree_index := 7\<rparr> \<rparr> = Inr st' \<and>
           pending_stack st' = [([72, 1, 1, 1, 72, 0, 3, 2, 3], 2)] \<and>
           adrs st' = \<lparr> m_type = OTS_Hash_Address, m_tree_height = 2, m_tree_index = 1,
                        m_ots_address = 1, m_ltree_address = 2 \<rparr>) \<and>
   (\<exists>st'. combine toy_ops [9]
             \<lparr> nodes = [[1], [2], [3]], node_levels = [2, 0, 0], level = 2,
               adrs = fresh_address\<lparr>m_tree_index := 7\<rparr> \<rparr> = Inr st' \<and>
           pending_stack st' = [([72, 0, 3, 2, 3], 1), ([1], 2)] \<and>
           adrs st' = \<lparr> m_type = OTS_Hash_Address, m_tree_height = 1, m_tree_index = 3,
                        m_ots_address = 1, m_ltree_address = 2 \<rparr>) \<and>
   (\<exists>ad. tree_hash_subtree lp64 toy_ops toy_private_key 4 2 fresh_address =
      Inr (subtree_node toy_ops toy_private_key 2 4, ad))"
proof -
  have h: "(2::nat) < 31" "(4::nat) + 2 ^ 2 < size_t_max lp64"
    by (simp_all add: size_t_max_def lp64_def)
  note t = tree_hash_subtree_stack_bounded [OF h, of toy_ops toy_private_key fresh_address]
  have k: "(3::nat) < 2 ^ 2" by simp
  from conjunct1 [OF t]
  have "(3::nat) < 2 ^ 2 \<longrightarrow>
        (\<exists>st. subtree_loop toy_ops toy_private_key [4..<4 + 3]
            (subtree_init toy_private_key 2 fresh_address) = Inr st \<and>
          level st \<le> 2 \<and> length (nodes st) = 2 + 1 \<and> length (node_levels st) = 2 + 1)"
    by (rule spec)
  from this k
  have a: "\<exists>st. subtree_loop toy_ops toy_private_key [4..<4 + 3]
            (subtree_init toy_private_key 2 fresh_address) = Inr st \<and>
          level st \<le> 2 \<and> length (nodes st) = 2 + 1 \<and> length (node_levels st) = 2 + 1"
    by (rule mp)
  note b = conjunct1 [OF conjunct2 [OF t]]
  note e = conjunct1 [OF conjunct2 [OF conjunct2 [OF conjunct2 [OF t]]]]
  let ?s1 = "\<lparr> nodes = [[1], [2], [3]], node_levels = [1, 0, 0], level = 2,
               adrs = fresh_address\<lparr>m_tree_index := 7\<rparr> \<rparr>"
  let ?s2 = "\<lparr> nodes = [[1], [2], [3]], node_levels = [2, 0, 0], level = 2,
               adrs = fresh_address\<lparr>m_tree_index := 7\<rparr> \<rparr>"
  have in1: "level ?s1 < length (node_levels ?s1) \<and> level ?s1 < length (nodes ?s1)"
    and in2: "level ?s2 < length (node_levels ?s2) \<and> level ?s2 < length (nodes ?s2)"
    by simp_all
  have p1: "pop_and_combine toy_ops [9] (pending_stack ?s1) (adrs ?s1) =
      ([([72, 1, 1, 1, 72, 0, 3, 2, 3], 2)],
       \<lparr> m_type = OTS_Hash_Address, m_tree_height = 2, m_tree_index = 1,
         m_ots_address = 1, m_ltree_address = 2 \<rparr>)"
    by (simp add: pending_stack_def toy_hash Let_def fresh_address_def
        set_tree_index_def get_tree_index_def set_tree_height_def get_tree_height_def)
  have p2: "pop_and_combine toy_ops [9] (pending_stack ?s2) (adrs ?s2) =
      ([([72, 0, 3, 2, 3], 1), ([1], 2)],
       \<lparr> m_type = OTS_Hash_Address, m_tree_height = 1, m_tree_index = 3,
         m_ots_address = 1, m_ltree_address = 2 \<rparr>)"
    by (simp add: pending_stack_def toy_hash Let_def fresh_address_def
        set_tree_index_def get_tree_index_def set_tree_height_def get_tree_height_def)
  note e1 = conjunct2 [OF conjunct2 [OF conjunct2 [OF conjunct2
        [OF mp [OF spec [OF spec [OF e]] in1, of "[9]"]]]]]
  note e2 = conjunct2 [OF conjunct2 [OF conjunct2 [OF conjunct2
        [OF mp [OF spec [OF spec [OF e]] in2, of "[9]"]]]]]
  from e1 have c1: "\<exists>st'. combine toy_ops [9] ?s1 = Inr st' \<and>
           pending_stack st' = [([72, 1, 1, 1, 72, 0, 3, 2, 3], 2)] \<and>
           adrs st' = \<lparr> m_type = OTS_Hash_Address, m_tree_height = 2, m_tree_index = 1,
                        m_ots_address = 1, m_ltree_address = 2 \<rparr>"
    unfolding p1 prod.inject .
  from e2 have c2: "\<exists>st'. combine toy_ops [9] ?s2 = Inr st' \<and>
           pending_stack st' = [([72, 0, 3, 2, 3], 1), ([1], 2)] \<and>
           adrs st' = \<lparr> m_type = OTS_Hash_Address, m_tree_height = 1, m_tree_index = 3,
                        m_ots_address = 1, m_ltree_address = 2 \<rparr>"
    unfolding p2 prod.inject .
  note g = mp [OF conjunct1 [OF conjunct2 [OF conjunct2 [OF conjunct2 [OF conjunct2 [OF t]]]]]
      toy_discipline]
  show ?thesis
    by (intro conjI a b c1 c2 g)
qed


section \<open>Theorems: the errors of the tree hash\<close>

lemma combine_error: "combine ops seed st = Inl e \<Longrightarrow> e = Undefined_Behaviour"
proof (induction ops seed st rule: combine.induct)
  case (1 ops seed st)
  show ?case
  proof (cases "0 < level st \<and> \<not> (length (node_levels st) \<le> level st \<or> length (nodes st) \<le> level st)
      \<and> node_levels st ! level st = node_levels st ! (level st - 1)")
    case True
    with "1.prems" have "combine ops seed (merge_top ops seed st) = Inl e"
      by (subst (asm) combine.simps) simp
    with "1.IH" True show ?thesis by simp
  next
    case False
    with "1.prems" show ?thesis
      by (subst (asm) combine.simps) (auto split: if_splits)
  qed
qed

lemma subtree_step_error: "subtree_step ops this i st = Inl e \<Longrightarrow> e = Undefined_Behaviour"
  by (auto simp add: subtree_step_def Let_def split: if_splits sum.splits dest: combine_error)

lemma subtree_loop_error: "subtree_loop ops this idxs st = Inl e \<Longrightarrow> e = Undefined_Behaviour"
  by (induction idxs arbitrary: st) (auto split: sum.splits dest: subtree_step_error)

lemma tree_hash_subtree_error:
  "tree_hash_subtree plat ops this start_idx h adrs0 = Inl e \<Longrightarrow> e = Undefined_Behaviour"
  by (auto simp add: tree_hash_subtree_def Let_def split: if_splits sum.splits
      dest: subtree_loop_error)

lemma join_all_error: "join_all rs = Inl e \<Longrightarrow> Inl e \<in> set rs"
  by (induction rs) (auto split: sum.splits)

lemma top_levels_error: "top_levels ops seed h lvl s = Inl e \<Longrightarrow> e = Undefined_Behaviour"
proof (induction ops seed h lvl s rule: top_levels.induct)
  case (1 ops seed h lvl s)
  show ?case
  proof (cases "1 < lvl \<and> \<not> (length (fst s) < 2 ^ lvl \<or> length (snd s) < 2 ^ lvl)")
    case True
    with "1.prems" have "top_levels ops seed h (lvl - 1)
        (fold (level_step ops seed h (lvl - 1) (take (2 ^ lvl) (fst s))) [0..<2 ^ (lvl - 1)] s) = Inl e"
      by (subst (asm) top_levels.simps) simp
    with "1.IH" True show ?thesis by simp
  next
    case False
    with "1.prems" show ?thesis
      by (subst (asm) top_levels.simps) (auto split: if_splits)
  qed
qed

lemma tree_hash_threads_error:
  assumes "tree_hash_threads plat ops this start_idx h adrs0 s = Inl e"
  shows "e = Undefined_Behaviour \<or> e = Assertion_Failure worker_assert_msg"
proof -
  have j: "e' = Undefined_Behaviour"
    if "join_all (map (\<lambda>i. tree_hash_subtree plat ops this (f i) (h - s) adrs0) xs) = Inl e'"
    for e' f xs
    using join_all_error [OF that] by (auto dest: tree_hash_subtree_error [OF sym])
  from assms show ?thesis
    unfolding tree_hash_threads_def Let_def
    by (auto split: if_splits sum.splits dest: j top_levels_error)
qed

lemma tree_hash_error:
  assumes "tree_hash plat ops this start_idx h adrs0 = Inl e"
  shows "e = Undefined_Behaviour \<or> e = Assertion_Failure worker_assert_msg \<or>
         e = Assertion_Failure align_assert_msg"
  using assms unfolding tree_hash_def Let_def
  by (auto split: if_splits dest: tree_hash_subtree_error tree_hash_threads_error)

lemma assert_msgs_differ:
  "size_t_assert_msg \<noteq> worker_assert_msg" "size_t_assert_msg \<noteq> align_assert_msg"
  by (simp_all add: size_t_assert_msg_def worker_assert_msg_def align_assert_msg_def)

section \<open>Theorems: the parallel and the sequential tree hash\<close>

lemma subtree_wrap:
  assumes "h < 31" "(2 ^ h + start_idx) mod size_t_max plat \<le> start_idx"
  shows "tree_hash_subtree plat ops this start_idx h adrs0 = Inl Undefined_Behaviour"
  using assms by (simp add: tree_hash_subtree_def Let_def subtree_init_def)

lemma join_all_Inl: "Inl e \<in> set rs \<Longrightarrow> \<exists>e'. join_all rs = Inl e'"
  by (induction rs) (auto split: sum.splits)

lemma aligned_wrap_exact:
  fixes start_idx M :: nat
  assumes "2 ^ h dvd start_idx" "2 ^ h dvd M" "start_idx < M" "M \<le> start_idx + 2 ^ h"
  shows "start_idx + 2 ^ h = M"
proof -
  from assms(1) obtain q where q: "start_idx = 2 ^ h * q" ..
  from assms(2) obtain r where r: "M = 2 ^ h * r" ..
  from assms(3) have "q < r" unfolding q r by simp
  then have "Suc q \<le> r" by simp
  then have "2 ^ h * Suc q \<le> 2 ^ h * r" by (rule mult_le_mono2)
  then have "start_idx + 2 ^ h \<le> M" unfolding q r by simp
  with assms(4) show ?thesis by simp
qed

lemma tree_hash_threads_wrap:
  assumes h: "h \<le> 6" and s: "1 \<le> s" "s \<le> h"
    and aligned: "start_idx mod 2 ^ h = 0"
    and typed: "start_idx < size_t_max plat"
    and wrap: "size_t_max plat \<le> start_idx + 2 ^ h"
  shows "tree_hash_threads plat ops this start_idx h adrs0 s = Inl Undefined_Behaviour"
proof (cases "sizeof_size_t plat = 0")
  case True
  then show ?thesis
    by (simp add: tree_hash_threads_def size_t_max_def Let_def)
next
  case False
  let ?M = "size_t_max plat"
  let ?f = "\<lambda>i. tree_hash_subtree plat ops this ((start_idx + i * 2 ^ (h - s)) mod ?M) (h - s) adrs0"
  have hk: "h \<le> 8 * sizeof_size_t plat" "h < 8 * sizeof_size_t plat"
    using False h by simp_all
  have dM: "2 ^ h dvd ?M"
    unfolding size_t_max_def using hk(1) by (rule le_imp_power_dvd)
  have lM: "2 ^ h < ?M"
    unfolding size_t_max_def using hk(2) by (simp only: power_strict_increasing_iff rel_simps)
  have dS: "2 ^ h dvd start_idx"
    using aligned by (simp add: mod_eq_0_iff_dvd)
  have eq: "start_idx + 2 ^ h = ?M"
    using dS dM typed wrap by (rule aligned_wrap_exact)
  have "(2::nat) ^ s \<le> 2 ^ h" using s(2) by (intro power_increasing) simp_all
  then have "2 ^ s < ?M" using lM by (rule le_less_trans)
  then have sub: "2 ^ s mod ?M = 2 ^ s" by simp
  have last: "(2 ^ h + start_idx) mod ?M = 0"
    using eq by (simp add: add.commute)
  have "?M - start_idx = 2 ^ h" using eq by simp
  then have span: "(0 + ?M - start_idx) mod ?M = 2 ^ h"
    using lM by simp
  have offs: "(2::nat) ^ h div 2 ^ s = 2 ^ (h - s)" "(2::nat) ^ h mod 2 ^ s = 0"
    by (simp_all add: pow2_split [OF s(2)])
  define i where "i = 2 ^ s - (1::nat)"
  have i: "i < 2 ^ s" "Suc i = 2 ^ s" by (simp_all add: i_def)
  have "Suc i * 2 ^ (h - s) = 2 ^ h"
    unfolding i(2) by (simp add: pow2_split [OF s(2)])
  then have si: "start_idx + i * 2 ^ (h - s) + 2 ^ (h - s) = ?M"
    using eq by simp
  have "(0::nat) < 2 ^ (h - s)" by simp
  with si have lt: "start_idx + i * 2 ^ (h - s) < ?M" by linarith
  then have m: "(start_idx + i * 2 ^ (h - s)) mod ?M = start_idx + i * 2 ^ (h - s)"
    by simp
  have "(2 ^ (h - s) + (start_idx + i * 2 ^ (h - s))) mod ?M = 0"
    using si by (simp add: add.commute)
  then have w: "(2 ^ (h - s) + (start_idx + i * 2 ^ (h - s))) mod ?M \<le> start_idx + i * 2 ^ (h - s)"
    by simp
  have hs: "h - s < 31" using h by simp
  have "?f i = Inl Undefined_Behaviour"
    unfolding m using hs w by (rule subtree_wrap)
  moreover have "i \<in> set [0..<2 ^ s]" using i(1) by simp
  ultimately have "Inl Undefined_Behaviour \<in> set (map ?f [0..<2 ^ s])"
    by (metis (no_types, lifting) image_eqI set_map)
  from join_all_Inl [OF this] obtain e' where j: "join_all (map ?f [0..<2 ^ s]) = Inl e'" ..
  from join_all_error [OF j] have "e' = Undefined_Behaviour"
    by (auto dest: tree_hash_subtree_error [OF sym])
  with j have join: "join_all (map ?f [0..<2 ^ s]) = Inl Undefined_Behaviour" by simp
  have pos: "(0::nat) < 2 ^ s" by simp
  show ?thesis
    unfolding tree_hash_threads_def Let_def sub last span offs
    using pos by (simp add: join)
qed

text \<open>
  C1. For a tree height \<open>h\<close> of at most 6, a split level \<open>s\<close> from 0 to \<open>h\<close> and
  a start index (a \<open>size_t\<close>) divisible by \<open>2^h\<close>, \<open>tree_hash\<close> on a platform
  with threads whose split level is \<open>s\<close> gives the same node as the sequential
  \<open>tree_hash_subtree\<close>, for every key and all hash operations that keep the address
  discipline. Where the index range does not wrap around, that node is a value: the
  node \<open>subtree_node\<close> of the leaves from the start index on. (Where it wraps, at the
  very end of the range of \<open>size_t\<close>, both computations run into undefined behaviour.)
\<close>

theorem parallel_equals_sequential:
  assumes d: "address_discipline ops this"
    and h: "h \<le> 6" and s: "s \<le> h"
    and aligned: "start_idx mod 2 ^ h = 0"
    and typed: "start_idx < size_t_max plat"
  shows
    "map_sum id fst
       (tree_hash (plat\<lparr>has_threads := True, hardware_concurrency_log2 := s\<rparr>)
          ops this start_idx h adrs0) =
     map_sum id fst (tree_hash_subtree plat ops this start_idx h adrs0) \<and>
     (start_idx + 2 ^ h < size_t_max plat \<longrightarrow>
        (\<exists>ad. tree_hash_subtree plat ops this start_idx h adrs0 =
           Inr (subtree_node ops this h start_idx, ad)))"
proof -
  let ?p = "plat\<lparr>has_threads := True, hardware_concurrency_log2 := s\<rparr>"
  have h31: "h < 31" using h by simp
  have M: "size_t_max ?p = size_t_max plat" by (simp add: size_t_max_def)
  have m: "min h s = s" using s by simp
  have par: "tree_hash ?p ops this start_idx h adrs0 =
      (if s = 0 then tree_hash_subtree ?p ops this start_idx h adrs0
       else tree_hash_threads ?p ops this start_idx h adrs0 s)"
    using h31 aligned by (simp add: tree_hash_def m)
  have same: "tree_hash_subtree (plat\<lparr>has_threads := True, hardware_concurrency_log2 := b\<rparr>)
        ops this start_idx h adrs0 =
      tree_hash_subtree plat ops this start_idx h adrs0" for b
    by (simp add: tree_hash_subtree_def size_t_max_def)
  show ?thesis
  proof (cases "start_idx + 2 ^ h < size_t_max plat")
    case True
    then have range': "start_idx + 2 ^ h < size_t_max ?p" by (simp only: M)
    from tree_hash_subtree_value [OF d h31 True, of adrs0]
    obtain a2 where seq: "tree_hash_subtree plat ops this start_idx h adrs0 =
        Inr (subtree_node ops this h start_idx, a2)"
      by blast
    have "map_sum id fst (tree_hash ?p ops this start_idx h adrs0) =
        Inr (subtree_node ops this h start_idx)"
    proof (cases "s = 0")
      case True
      then show ?thesis unfolding par by (simp add: same seq)
    next
      case False
      then have "1 \<le> s" by simp
      from tree_hash_threads_value [OF d h31 this s range', of adrs0] False show ?thesis
        unfolding par by simp
    qed
    with seq show ?thesis by simp
  next
    case False
    then have wrap: "size_t_max plat \<le> start_idx + 2 ^ h" by simp
    have "(2 ^ h + start_idx) mod size_t_max plat \<le> start_idx"
    proof (cases "sizeof_size_t plat = 0")
      case True
      then show ?thesis by (simp add: size_t_max_def)
    next
      case nz: False
      have "h \<le> 8 * sizeof_size_t plat" using nz h by simp
      then have "2 ^ h dvd size_t_max plat"
        unfolding size_t_max_def by (rule le_imp_power_dvd)
      moreover have "2 ^ h dvd start_idx" using aligned by (simp add: mod_eq_0_iff_dvd)
      ultimately have "start_idx + 2 ^ h = size_t_max plat"
        using typed wrap by (intro aligned_wrap_exact)
      then show ?thesis by (simp add: add.commute)
    qed
    from subtree_wrap [OF h31 this]
    have seq: "tree_hash_subtree plat ops this start_idx h adrs0 = Inl Undefined_Behaviour" .
    have "tree_hash ?p ops this start_idx h adrs0 = Inl Undefined_Behaviour"
    proof (cases "s = 0")
      case True
      then show ?thesis unfolding par by (simp add: same seq)
    next
      case nz: False
      then have "1 \<le> s" by simp
      from tree_hash_threads_wrap [OF h this s aligned, of ?p ops this adrs0] typed wrap nz
      show ?thesis unfolding par by (simp add: M)
    qed
    with seq False show ?thesis by simp
  qed
qed

theorem parallel_equals_sequential_witness:
  "tree_hash_subtree lp64 toy_ops toy_private_key 4 2 fresh_address =
     Inr ([72, 1, 1, 72, 0, 2, 76, 4, 80, 5, 4, 9, 76, 5, 80, 5, 5, 9, 72, 0, 3,
           76, 6, 80, 5, 6, 9, 76, 7, 80, 5, 7, 9],
          \<lparr> m_type = Hash_Tree_Address, m_tree_height = 2, m_tree_index = 1,
            m_ots_address = 1, m_ltree_address = 2 \<rparr>) \<and>
   map_sum id fst
     (tree_hash (lp64\<lparr>has_threads := True, hardware_concurrency_log2 := 1\<rparr>)
        toy_ops toy_private_key 4 2 fresh_address) =
     Inr [72, 1, 1, 72, 0, 2, 76, 4, 80, 5, 4, 9, 76, 5, 80, 5, 5, 9, 72, 0, 3,
          76, 6, 80, 5, 6, 9, 76, 7, 80, 5, 7, 9] \<and>
   map_sum id fst
     (tree_hash (lp64\<lparr>has_threads := True, hardware_concurrency_log2 := 2\<rparr>)
        toy_ops toy_private_key 4 2 fresh_address) =
     Inr [72, 1, 1, 72, 0, 2, 76, 4, 80, 5, 4, 9, 76, 5, 80, 5, 5, 9, 72, 0, 3,
          76, 6, 80, 5, 6, 9, 76, 7, 80, 5, 7, 9]"
proof -
  have h: "(2::nat) \<le> 6" and s1: "(1::nat) \<le> 2" and s2: "(2::nat) \<le> 2"
    and a: "(4::nat) mod 2 ^ 2 = 0" and t: "(4::nat) < size_t_max lp64"
    by (simp_all add: size_t_max_def lp64_def)
  from conjunct1 [OF parallel_equals_sequential [OF toy_discipline h s1 a t,
        of toy_private_key fresh_address]]
    conjunct1 [OF parallel_equals_sequential [OF toy_discipline h s2 a t,
        of toy_private_key fresh_address]]
  show ?thesis
    by (simp add: toy_seq2)
qed

section \<open>Theorems: the assertion on \<open>size_t\<close>\<close>

lemma from_rng_no_size_t_assertion:
  "XMSS_PrivateKey_from_rng plat ops name params wots_params rng \<noteq>
     Inl (Assertion_Failure size_t_assert_msg)"
proof
  assume a: "XMSS_PrivateKey_from_rng plat ops name params wots_params rng =
     Inl (Assertion_Failure size_t_assert_msg)"
  then obtain this where "tree_hash plat ops this 0 (tree_height params) fresh_address =
      Inl (Assertion_Failure size_t_assert_msg)"
    unfolding XMSS_PrivateKey_from_rng_def Let_def by (auto split: sum.splits)
  from tree_hash_error [OF this] show False
    using assert_msgs_differ by auto
qed

lemma fits_iff:
  assumes "1 \<le> h"
  shows "(sizeof_size_t plat \<ge> (h + 7) div 8) \<longleftrightarrow> 2 ^ (h - 1) < size_t_max plat"
proof -
  have "(sizeof_size_t plat \<ge> (h + 7) div 8) \<longleftrightarrow> h - 1 < 8 * sizeof_size_t plat"
    using assms by arith
  also have "\<dots> \<longleftrightarrow> (2::nat) ^ (h - 1) < 2 ^ (8 * sizeof_size_t plat)"
    by (simp only: power_strict_increasing_iff rel_simps)
  finally show ?thesis by (simp only: size_t_max_def)
qed

text \<open>
  The assertion on \<open>size_t\<close> in the two constructors. For a raw key whose public part
  is read as a key of tree height \<open>h\<close> (at least 1), the constructor from raw bytes
  fails the assertion exactly when \<open>2^(h-1)\<close> does not fit \<open>size_t\<close>, and otherwise
  goes on to its checks of the buffer. The constructor from a random number generator
  never fails it, on any platform and for any tree height.
\<close>

lemma size_t_assertion_of_constructors:
  "(XMSS_PublicKey_from_raw pko raw_key = Inr pub \<and> 1 \<le> tree_height (m_xmss_params pub) \<longrightarrow>
      (XMSS_PrivateKey_from_raw plat pko raw_key = Inl (Assertion_Failure size_t_assert_msg)) =
      (\<not> 2 ^ (tree_height (m_xmss_params pub) - 1) < size_t_max plat)) \<and>
   XMSS_PrivateKey_from_rng plat ops name params wots_params rng \<noteq>
     Inl (Assertion_Failure size_t_assert_msg)"
proof -
  have "(XMSS_PrivateKey_from_raw plat pko raw_key = Inl (Assertion_Failure size_t_assert_msg)) =
      (\<not> 2 ^ (tree_height (m_xmss_params pub) - 1) < size_t_max plat)"
    if p: "XMSS_PublicKey_from_raw pko raw_key = Inr pub" and h: "1 \<le> tree_height (m_xmss_params pub)"
    unfolding fits_iff [OF h, symmetric]
    by (simp add: XMSS_PrivateKey_from_raw_def p Let_def)
  with from_rng_no_size_t_assertion show ?thesis by blast
qed


end
